theory Spec2Isabelle
  imports Main "HOL-Library.AList" "HOL-Library.Sublist"
begin

section \<open>Python values used by symbol\_graph.py\<close>

text \<open>
  A Python \<open>str\<close> is modelled as a \<open>string\<close>: a list of 8-bit characters, read as
  the code points U+0000 to U+00FF. The character classes below are the classes of
  the Python runtime restricted to that range. The exceptions that the functions of
  \<^verbatim>\<open>symbol_graph.py\<close> can raise are values of \<open>error\<close>; a function that can raise
  returns \<open>error + 'a\<close>, with \<open>Inl\<close> for the exception.
\<close>

datatype error = IndexError | ValueError | AttributeError | NetworkXError

definition code_point :: "char \<Rightarrow> nat" where
  "code_point c = of_char c"

definition isdecimal :: "char \<Rightarrow> bool" where
  \<comment> \<open>the ASCII digits: the only decimal digits below U+0100\<close>
  "isdecimal c = (48 \<le> code_point c \<and> code_point c \<le> 57)"

definition isnumeric :: "char \<Rightarrow> bool" where
  \<comment> \<open>\<^verbatim>\<open>str.isnumeric\<close>: the ASCII digits, the superscripts U+00B2, U+00B3, U+00B9
      and the fractions U+00BC to U+00BE\<close>
  "isnumeric c = (isdecimal c \<or> code_point c \<in> {178, 179, 185, 188, 189, 190})"

definition isalpha :: "char \<Rightarrow> bool" where
  \<comment> \<open>\<^verbatim>\<open>str.isalpha\<close> below U+0100\<close>
  "isalpha c = (let n = code_point c in
     (65 \<le> n \<and> n \<le> 90) \<or> (97 \<le> n \<and> n \<le> 122) \<or> n = 170 \<or> n = 181 \<or> n = 186 \<or>
     (192 \<le> n \<and> n \<le> 214) \<or> (216 \<le> n \<and> n \<le> 246) \<or> (248 \<le> n \<and> n \<le> 255))"

definition isword :: "char \<Rightarrow> bool" where
  \<comment> \<open>the class \<^verbatim>\<open>\w\<close> of the module \<^verbatim>\<open>re\<close> on a \<open>str\<close> pattern: alphanumeric or underscore\<close>
  "isword c = (isalpha c \<or> isnumeric c \<or> c = CHR ''_'')"

definition ishexlower :: "char \<Rightarrow> bool" where
  \<comment> \<open>the class \<^verbatim>\<open>[0-9a-f]\<close>\<close>
  "ishexlower c = (isdecimal c \<or> (97 \<le> code_point c \<and> code_point c \<le> 102))"

definition isspace_int :: "char \<Rightarrow> bool" where
  \<comment> \<open>the white space that \<^verbatim>\<open>int()\<close> strips: tab to carriage return, space, and the
      two white-space characters U+0085 and U+00A0 that are turned into a space first\<close>
  "isspace_int c = (let n = code_point c in (9 \<le> n \<and> n \<le> 13) \<or> n = 32 \<or> n = 133 \<or> n = 160)"

subsection \<open>Slices, split, join, replace\<close>

definition slice_to :: "'a list \<Rightarrow> int \<Rightarrow> 'a list" where
  \<comment> \<open>\<^verbatim>\<open>xs[:n]\<close>; a negative \<open>n\<close> counts from the end\<close>
  "slice_to xs n = (if n < 0 then take (length xs - nat (- n)) xs else take (nat n) xs)"

definition slice_from :: "'a list \<Rightarrow> int \<Rightarrow> 'a list" where
  \<comment> \<open>\<^verbatim>\<open>xs[n:]\<close>\<close>
  "slice_from xs n = (if n < 0 then drop (length xs - nat (- n)) xs else drop (nat n) xs)"

fun str_split :: "char \<Rightarrow> string \<Rightarrow> string list" where
  \<comment> \<open>\<^verbatim>\<open>s.split(sep)\<close> for a separator of one character: never the empty list\<close>
  "str_split sep [] = [[]]"
| "str_split sep (c # cs) =
     (if c = sep then [] # str_split sep cs
      else (case str_split sep cs of
              [] \<Rightarrow> [[c]]
            | p # ps \<Rightarrow> (c # p) # ps))"

fun join :: "string \<Rightarrow> string list \<Rightarrow> string" where
  \<comment> \<open>\<^verbatim>\<open>sep.join(parts)\<close>\<close>
  "join sep [] = []"
| "join sep [p] = p"
| "join sep (p # q # ps) = p @ sep @ join sep (q # ps)"

function replace :: "string \<Rightarrow> string \<Rightarrow> string \<Rightarrow> string" where
  \<comment> \<open>\<^verbatim>\<open>s.replace(old, new)\<close>: the occurrences of \<open>old\<close>, left to right, not overlapping\<close>
  "replace [] old new = (if old = [] then new else [])"
| "replace (c # cs) old new =
     (if old = [] then new @ c # replace cs old new
      else if prefix old (c # cs) then new @ replace (drop (length old) (c # cs)) old new
      else c # replace cs old new)"
  by pat_completeness auto
termination
  by (relation "measure (\<lambda>(s, old, new). length s)") (auto simp: neq_Nil_conv)

subsection \<open>Integers and their literals\<close>

definition digit_value :: "char \<Rightarrow> nat option" where
  \<comment> \<open>the value of a character as a digit: \<^verbatim>\<open>0-9\<close>, then \<^verbatim>\<open>a-z\<close> or \<^verbatim>\<open>A-Z\<close> from ten\<close>
  "digit_value c = (let n = code_point c in
     if 48 \<le> n \<and> n \<le> 57 then Some (n - 48)
     else if 97 \<le> n \<and> n \<le> 122 then Some (n - 87)
     else if 65 \<le> n \<and> n \<le> 90 then Some (n - 55)
     else None)"

definition digit_in :: "nat \<Rightarrow> char \<Rightarrow> nat option" where
  "digit_in base c = (case digit_value c of
     None \<Rightarrow> None
   | Some v \<Rightarrow> if v < base then Some v else None)"

fun int_digits :: "nat \<Rightarrow> nat \<Rightarrow> string \<Rightarrow> nat option" where
  \<comment> \<open>the digits after the first one; a single underscore may stand between two digits\<close>
  "int_digits base acc [] = Some acc"
| "int_digits base acc [c] = (case digit_in base c of
     None \<Rightarrow> None
   | Some v \<Rightarrow> Some (acc * base + v))"
| "int_digits base acc (c # d # ds) =
     (if c = CHR ''_'' then
        (case digit_in base d of
           None \<Rightarrow> None
         | Some v \<Rightarrow> int_digits base (acc * base + v) ds)
      else
        (case digit_in base c of
           None \<Rightarrow> None
         | Some v \<Rightarrow> int_digits base (acc * base + v) (d # ds)))"

definition strip_int :: "string \<Rightarrow> string" where
  "strip_int s = rev (dropWhile isspace_int (rev (dropWhile isspace_int s)))"

definition max_str_digits :: nat where
  \<comment> \<open>the default of \<^verbatim>\<open>sys.int_max_str_digits\<close>\<close>
  "max_str_digits = 4300"

definition binary_base :: "nat \<Rightarrow> bool" where
  \<comment> \<open>the bases that are powers of two: their conversion has no limit\<close>
  "binary_base base = (base \<in> {2, 4, 8, 16, 32})"

definition py_int :: "nat \<Rightarrow> string \<Rightarrow> error + int" where
  \<comment> \<open>\<^verbatim>\<open>int(s, base)\<close> for base 10 and base 16: white space around, a sign, for base 16
      an optional prefix \<^verbatim>\<open>0x\<close> (and one underscore after it), then the digits.
      In a base that is no power of two, a literal of more than 4300 digits (leading
      zeros counted, underscores not) is refused with \<open>ValueError\<close>.\<close>
  "py_int base s =
     (let t = strip_int s;
          neg = (t \<noteq> [] \<and> hd t = CHR ''-'');
          t1 = (if t \<noteq> [] \<and> (hd t = CHR ''-'' \<or> hd t = CHR ''+'') then tl t else t);
          t2 = (if base = 16 \<and> (prefix ''0x'' t1 \<or> prefix ''0X'' t1)
                then (if prefix ''_'' (drop 2 t1) then drop 3 t1 else drop 2 t1)
                else t1)
      in case t2 of
           [] \<Rightarrow> Inl ValueError
         | c # cs \<Rightarrow>
             (case digit_in base c of
                None \<Rightarrow> Inl ValueError
              | Some v \<Rightarrow>
                  (case int_digits base v cs of
                     None \<Rightarrow> Inl ValueError
                   | Some n \<Rightarrow>
                       if \<not> binary_base base \<and>
                          max_str_digits < length (filter (\<lambda>d. d \<noteq> CHR ''_'') t2)
                       then Inl ValueError
                       else Inr (if neg then - int n else int n))))"

definition digit_char :: "nat \<Rightarrow> char" where
  "digit_char d = char_of (48 + d)"

fun digits10 :: "nat \<Rightarrow> string" where
  \<comment> \<open>the decimal digits of a natural number, no leading zero\<close>
  "digits10 n = (if n < 10 then [digit_char n] else digits10 (n div 10) @ [digit_char (n mod 10)])"

declare digits10.simps [simp del]

definition str_int :: "int \<Rightarrow> string" where
  \<comment> \<open>\<^verbatim>\<open>str(n)\<close>, which an f-string applies to an integer\<close>
  "str_int n = (if n < 0 then CHR ''-'' # digits10 (nat (- n)) else digits10 (nat n))"

section \<open>The symbol name decoder\<close>

text \<open>
  \<^verbatim>\<open>demangle_rust\<close>, lines 79 to 105. The inner loop
  \<^verbatim>\<open>while sym[i].isnumeric() and i < len(sym)\<close> indexes before it compares, so it
  raises \<open>IndexError\<close> when the digits run to the end of the text.
\<close>

function scan_digits :: "string \<Rightarrow> nat \<Rightarrow> error + nat" where
  "scan_digits symb i =
     (if i < length symb then
        (if isnumeric (symb ! i) then scan_digits symb (Suc i) else Inr i)
      else Inl IndexError)"
  by pat_completeness auto
termination
  by (relation "measure (\<lambda>(symb, i). length symb - i)") auto

declare scan_digits.simps [simp del]

function parse_parts :: "string \<Rightarrow> string list \<Rightarrow> error + string list" where
  \<comment> \<open>the loop \<^verbatim>\<open>while True\<close>: \<open>symb\<close> is the text left (the variable \<^verbatim>\<open>sym\<close>), \<open>parts\<close> the components so far\<close>
  "parse_parts symb parts =
     (if symb = [] then Inl IndexError
      else if hd symb = CHR ''_'' then Inr (parts @ [symb])
      else if \<not> isnumeric (hd symb) then Inr (parts @ [symb])
      else
        (case scan_digits symb 1 of
           Inl e \<Rightarrow> Inl e
         | Inr i \<Rightarrow>
             (case py_int 10 (slice_to symb (int i)) of
                Inl e \<Rightarrow> Inl e
              | Inr n \<Rightarrow>
                  parse_parts (slice_from (slice_from symb (int i)) n)
                    (parts @ [slice_to (slice_from symb (int i)) n]))))"
  by pat_completeness auto

lemma scan_digits_pos: "scan_digits symb i = Inr j \<Longrightarrow> i \<le> j \<and> j < length symb"
proof (induction symb i rule: scan_digits.induct)
  case (1 symb i)
  then show ?case
    by (subst (asm) (2) scan_digits.simps) (auto split: if_splits)
qed

lemma length_slice_from_le: "length (slice_from xs n) \<le> length xs"
  by (simp add: slice_from_def)

termination parse_parts
proof (relation "measure (\<lambda>(symb, parts). length symb)")
  show "wf (measure (\<lambda>(symb, parts). length symb))" by simp
next
  fix symb :: string and parts :: "string list" and x2 x2a
  assume "symb \<noteq> []" and sc: "scan_digits symb 1 = Inr x2"
  from scan_digits_pos [OF sc] have "1 \<le> x2" "x2 < length symb" by auto
  then have "length (slice_from symb (int x2)) < length symb"
    by (simp add: slice_from_def)
  moreover have "length (slice_from (slice_from symb (int x2)) x2a) \<le> length (slice_from symb (int x2))"
    by (rule length_slice_from_le)
  ultimately show "((slice_from (slice_from symb (int x2)) x2a, parts @ [slice_to (slice_from symb (int x2)) x2a]),
      (symb, parts)) \<in> measure (\<lambda>(symb, parts). length symb)"
    by simp
qed

declare parse_parts.simps [simp del]

fun demangle_rust :: "string option \<Rightarrow> error + string" where
  \<comment> \<open>the argument is a \<open>str\<close> or \<open>None\<close> (which has no method \<^verbatim>\<open>startswith\<close>)\<close>
  "demangle_rust None = Inl AttributeError"
| "demangle_rust (Some symb) =
     (if prefix ''_ZN'' symb then
        (case parse_parts (slice_from symb 3) [] of
           Inl e \<Rightarrow> Inl e
         | Inr parts \<Rightarrow>
             Inr (replace (replace (replace (join ''::'' (slice_to parts (- 2)))
                    ''$u20$'' '' '') ''$LT$'' ''<'') ''$GT$'' ''>''))
      else Inr symb)"

section \<open>The disassembly parser\<close>

text \<open>
  \<^verbatim>\<open>parse_edges\<close>, lines 125 to 136. The two regular expressions are
  \<^verbatim>\<open>[0-9a-f]+ <([\w]+)>:\<close>, matched at the start of a line, and \<^verbatim>\<open><([\w]+)>\<close>,
  searched along a line. In both, a greedy repetition is followed by a character outside
  its class, so the longest run is the only one that can match.
\<close>

definition new_symbol_match :: "string \<Rightarrow> string option" where
  \<comment> \<open>\<^verbatim>\<open>new_symbol_re.match(line)\<close>: group 1 of the match, if there is one\<close>
  "new_symbol_match line =
     (let addr = takeWhile ishexlower line;
          r1 = dropWhile ishexlower line
      in if addr \<noteq> [] \<and> prefix '' <'' r1 then
           (let name = takeWhile isword (drop 2 r1);
                r2 = dropWhile isword (drop 2 r1)
            in if name \<noteq> [] \<and> prefix ''>:'' r2 then Some name else None)
         else None)"

function symbol_ref_findall :: "string \<Rightarrow> string list" where
  \<comment> \<open>\<^verbatim>\<open>symbol_ref_re.findall(line)\<close>: group 1 of the matches, left to right, not overlapping\<close>
  "symbol_ref_findall [] = []"
| "symbol_ref_findall (c # cs) =
     (if c = CHR ''<'' \<and> takeWhile isword cs \<noteq> [] \<and> prefix ''>'' (dropWhile isword cs)
      then takeWhile isword cs # symbol_ref_findall (tl (dropWhile isword cs))
      else symbol_ref_findall cs)"
  by pat_completeness auto
termination
proof (relation "measure length")
  show "wf (measure length)" by simp
next
  fix c :: char and cs :: string
  have "length (tl (dropWhile isword cs)) \<le> length cs"
    using length_dropWhile_le [of isword cs] by simp
  then show "(tl (dropWhile isword cs), c # cs) \<in> measure length" by simp
next
  fix c :: char and cs :: string
  show "(cs, c # cs) \<in> measure length" by simp
qed

fun parse_lines :: "string option \<Rightarrow> string list \<Rightarrow> (string option \<times> string) list" where
  \<comment> \<open>the loop over the lines; the first argument is the variable \<^verbatim>\<open>sym\<close>, \<open>None\<close> at first\<close>
  "parse_lines symb [] = []"
| "parse_lines symb (line # lines) =
     (case new_symbol_match line of
        Some name \<Rightarrow> parse_lines (Some name) lines
      | None \<Rightarrow> map (\<lambda>ref. (symb, ref)) (symbol_ref_findall line) @ parse_lines symb lines)"

definition parse_edges :: "string \<Rightarrow> (string option \<times> string) list" where
  \<comment> \<open>the pairs the generator yields, in order\<close>
  "parse_edges asm = parse_lines None (str_split (CHR 0x0A) asm)"

section \<open>The symbol size extractor\<close>

text \<open>
  \<^verbatim>\<open>symbol_sizes\<close>, lines 107 to 118, on the output of the symbol-table tool: the
  argument \<open>out\<close> is the text that \<^verbatim>\<open>subprocess.check_output\<close> returned. The
  dictionary \<^verbatim>\<open>sizes\<close> is an association list in insertion order; an assignment to a
  key that is present replaces its value in place.
\<close>

fun size_lines :: "string list \<Rightarrow> (string \<times> int) list \<Rightarrow> error + (string \<times> int) list" where
  "size_lines [] sizes = Inr sizes"
| "size_lines (line # lines) sizes =
     (let parts = str_split CHR '' '' line
      in if length parts = 4 then
           (case py_int 16 (parts ! 1) of
              Inl e \<Rightarrow> Inl e
            | Inr sz \<Rightarrow> size_lines lines (AList.update (parts ! 3) sz sizes))
         else size_lines lines sizes)"

definition symbol_sizes :: "string \<Rightarrow> error + (string \<times> int) list" where
  "symbol_sizes out = size_lines (str_split (CHR 0x0A) out) []"

section \<open>The reference graph\<close>

text \<open>
  Modelled from the spec: the directed graph type of the graph library
  (\<^verbatim>\<open>nx.DiGraph\<close> with \<^verbatim>\<open>add_edge\<close>, \<^verbatim>\<open>nodes\<close> and the node attribute \<^verbatim>\<open>size\<close>),
  which is not part of the repository. A graph is its nodes in insertion order, each
  with its optional size, and its directed edges in insertion order. Adding an edge
  inserts both endpoints as nodes if absent, and the edge if the ordered pair is absent.
\<close>

record digraph =
  nodes :: "(string \<times> int option) list"
  edges :: "(string \<times> string) list"

definition empty_digraph :: digraph where
  "empty_digraph = \<lparr>nodes = [], edges = []\<rparr>"

definition node_names :: "digraph \<Rightarrow> string list" where
  "node_names gr = map fst (nodes gr)"

definition has_node :: "string \<Rightarrow> digraph \<Rightarrow> bool" where
  "has_node n gr = (n \<in> set (node_names gr))"

definition add_node :: "string \<Rightarrow> digraph \<Rightarrow> digraph" where
  "add_node n gr = (if has_node n gr then gr else gr\<lparr>nodes := nodes gr @ [(n, None)]\<rparr>)"

definition add_edge :: "string \<Rightarrow> string \<Rightarrow> digraph \<Rightarrow> digraph" where
  "add_edge u v gr =
     (let gr' = add_node v (add_node u gr)
      in if (u, v) \<in> set (edges gr') then gr' else gr'\<lparr>edges := edges gr' @ [(u, v)]\<rparr>)"

definition set_size :: "string \<Rightarrow> int \<Rightarrow> digraph \<Rightarrow> digraph" where
  \<comment> \<open>\<^verbatim>\<open>gr.nodes[n]['size'] = sz\<close> for a node \<open>n\<close> of the graph\<close>
  "set_size n sz gr = gr\<lparr>nodes := map (\<lambda>(m, a). if m = n then (m, Some sz) else (m, a)) (nodes gr)\<rparr>"

text \<open>
  \<^verbatim>\<open>encode_symbol\<close>, line 77, and \<^verbatim>\<open>to_digraph\<close>, lines 25 to 37. The two tools are
  not run: \<open>asm_out\<close> is the text of the disassembler and \<open>nm_out\<close> the text of the
  symbol-table tool, in place of the arguments \<^verbatim>\<open>objfile\<close> and \<^verbatim>\<open>triple\<close>. The
  demangler is called with what the parser yields, a \<open>str\<close> or \<open>None\<close>.
\<close>

type_synonym demangler = "string option \<Rightarrow> error + string"

definition encode_symbol :: "string \<Rightarrow> string" where
  "encode_symbol symb = replace symb [CHR 0x22] [CHR 0x5C, CHR 0x22]"

fun add_edges :: "demangler \<Rightarrow> (string option \<times> string) list \<Rightarrow> digraph \<Rightarrow> error + digraph" where
  "add_edges demangle [] gr = Inr gr"
| "add_edges demangle ((src, dest) # es) gr =
     (case demangle src of
        Inl e \<Rightarrow> Inl e
      | Inr s \<Rightarrow>
          (case demangle (Some dest) of
             Inl e \<Rightarrow> Inl e
           | Inr d \<Rightarrow> add_edges demangle es (add_edge (encode_symbol s) (encode_symbol d) gr)))"

fun add_sizes :: "demangler \<Rightarrow> (string \<times> int) list \<Rightarrow> digraph \<Rightarrow> error + digraph" where
  "add_sizes demangle [] gr = Inr gr"
| "add_sizes demangle ((symb, sz) # ss) gr =
     (case demangle (Some symb) of
        Inl e \<Rightarrow> Inl e
      | Inr s \<Rightarrow>
          add_sizes demangle ss
            (if has_node (encode_symbol s) gr then set_size (encode_symbol s) sz gr else gr))"

definition to_digraph :: "string \<Rightarrow> string \<Rightarrow> demangler \<Rightarrow> error + digraph" where
  "to_digraph asm_out nm_out demangle =
     (case add_edges demangle (parse_edges asm_out) empty_digraph of
        Inl e \<Rightarrow> Inl e
      | Inr gr \<Rightarrow>
          (case symbol_sizes nm_out of
             Inl e \<Rightarrow> Inl e
           | Inr sizes \<Rightarrow> add_sizes demangle sizes gr))"

section \<open>The printed graph description\<close>

text \<open>
  \<^verbatim>\<open>to_dot\<close>, lines 12 to 23. What it prints is a list of lines, one for each call of
  \<^verbatim>\<open>print\<close>, together with the exception that ended the call, if any: the lines
  printed before an exception stay printed.
\<close>

definition edge_line :: "string \<Rightarrow> string \<Rightarrow> string" where
  "edge_line src dest = ''  '' @ [CHR 0x22] @ src @ [CHR 0x22] @ '' -> '' @ [CHR 0x22] @ dest @ [CHR 0x22] @ '';''"

definition size_line :: "string \<Rightarrow> int \<Rightarrow> string" where
  "size_line symb sz =
     ''  '' @ [CHR 0x22] @ symb @ [CHR 0x22] @ '' [size='' @ str_int sz @ '' label='' @ [CHR 0x22] @ symb @
     [CHR 0x5C] @ ''n'' @ str_int sz @ '' bytes'' @ [CHR 0x22] @ ''];''"

fun dot_edges :: "demangler \<Rightarrow> (string option \<times> string) list \<Rightarrow> string list \<times> error option" where
  "dot_edges demangle [] = ([], None)"
| "dot_edges demangle ((src, dest) # es) =
     (case demangle src of
        Inl e \<Rightarrow> ([], Some e)
      | Inr s \<Rightarrow>
          (case demangle (Some dest) of
             Inl e \<Rightarrow> ([], Some e)
           | Inr d \<Rightarrow>
               (let (ls, r) = dot_edges demangle es
                in (edge_line (encode_symbol s) (encode_symbol d) # ls, r))))"

fun dot_sizes :: "demangler \<Rightarrow> (string \<times> int) list \<Rightarrow> string list \<times> error option" where
  "dot_sizes demangle [] = ([], None)"
| "dot_sizes demangle ((symb, sz) # ss) =
     (case demangle (Some symb) of
        Inl e \<Rightarrow> ([], Some e)
      | Inr s \<Rightarrow>
          (let (ls, r) = dot_sizes demangle ss
           in (size_line (encode_symbol s) sz # ls, r)))"

definition to_dot :: "string \<Rightarrow> string \<Rightarrow> demangler \<Rightarrow> string list \<times> error option" where
  "to_dot asm_out nm_out demangle =
     (let (l1, r1) = dot_edges demangle (parse_edges asm_out)
      in case r1 of
           Some e \<Rightarrow> (''digraph {'' # l1, Some e)
         | None \<Rightarrow>
             (case symbol_sizes nm_out of
                Inl e \<Rightarrow> (''digraph {'' # l1, Some e)
              | Inr sizes \<Rightarrow>
                  (let (l2, r2) = dot_sizes demangle sizes
                   in case r2 of
                        Some e \<Rightarrow> (''digraph {'' # l1 @ l2, Some e)
                      | None \<Rightarrow> (''digraph {'' # l1 @ l2 @ [''}''], None))))"

section \<open>The dominance analysis\<close>

text \<open>
  Modelled from the spec: the immediate-dominator computation that \<^verbatim>\<open>dominator_tree\<close>
  calls (\<^verbatim>\<open>nx.algorithms.dominance.immediate_dominators\<close>), which belongs to the graph
  library and is not under \<^verbatim>\<open>src/\<close>. In the words of the specification: it fails
  with an "unknown root" error if the root is not a node of the graph; otherwise it
  computes, over the subgraph reachable from the root, the immediate-dominator mapping
  by the standard definition, where a dominator of a node is a node through which every
  path from the root to that node passes, and \<open>B\<close> immediately dominates \<open>A\<close> if \<open>B\<close>
  dominates \<open>A\<close>, \<open>B \<noteq> A\<close>, and no other dominator of \<open>A\<close> is dominated by \<open>B\<close>.

  A path that avoids a set \<open>X\<close> of nodes has no node in \<open>X\<close>. Every path from the root to
  \<open>n\<close> passes through \<open>d\<close> exactly if no path from the root to \<open>n\<close> avoids \<open>{d}\<close>; that
  this is dominance in terms of paths is proved below. The mapping is a dictionary; its
  items are listed in the order of the nodes.
\<close>

definition avoiding :: "(string \<times> string) list \<Rightarrow> string set \<Rightarrow> (string \<times> string) set" where
  \<comment> \<open>the edges between nodes outside \<open>X\<close>\<close>
  "avoiding es X = set (filter (\<lambda>(a, b). a \<notin> X \<and> b \<notin> X) es)"

definition reaches :: "digraph \<Rightarrow> string set \<Rightarrow> string \<Rightarrow> string \<Rightarrow> bool" where
  \<comment> \<open>a path leads from \<open>r\<close> to \<open>n\<close> and avoids \<open>X\<close>\<close>
  "reaches gr X r n = (r \<notin> X \<and> (r = n \<or> (r, n) \<in> (avoiding (edges gr) X)\<^sup>+))"

definition dominates :: "digraph \<Rightarrow> string \<Rightarrow> string \<Rightarrow> string \<Rightarrow> bool" where
  \<comment> \<open>\<open>d\<close> dominates \<open>n\<close>, a node reachable from the root\<close>
  "dominates gr root d n = (reaches gr {} root n \<and> \<not> reaches gr {d} root n)"

definition immediately_dominates :: "digraph \<Rightarrow> string \<Rightarrow> string \<Rightarrow> string \<Rightarrow> bool" where
  "immediately_dominates gr root b a =
     (dominates gr root b a \<and> b \<noteq> a \<and>
      \<not> (\<exists>c \<in> set (node_names gr). c \<noteq> a \<and> c \<noteq> b \<and> dominates gr root c a \<and> dominates gr root b c))"

definition immediate_dominators :: "digraph \<Rightarrow> string \<Rightarrow> error + (string \<times> string) list" where
  \<comment> \<open>the dictionary from a node to its immediate dominator, as its items\<close>
  "immediate_dominators gr root =
     (if \<not> has_node root gr then Inl NetworkXError
      else Inr (concat (map (\<lambda>a. map (Pair a) (filter (\<lambda>b. immediately_dominates gr root b a) (node_names gr)))
                  (filter (reaches gr {} root) (node_names gr)))))"

text \<open>\<^verbatim>\<open>dominator_tree\<close>, lines 68 to 74: an edge from every node to its immediate dominator.\<close>

definition dominator_tree :: "digraph \<Rightarrow> string \<Rightarrow> error + digraph" where
  "dominator_tree gr n0 =
     (case immediate_dominators gr n0 of
        Inl e \<Rightarrow> Inl e
      | Inr doms \<Rightarrow> Inr (fold (\<lambda>(a, b) tr. add_edge a b tr) doms empty_digraph))"

text \<open>
  The graphs of the library, among the values of the record: no node and no edge twice,
  and the endpoints of every edge are nodes.
\<close>

definition wf_digraph :: "digraph \<Rightarrow> bool" where
  "wf_digraph gr = (distinct (node_names gr) \<and> distinct (edges gr) \<and>
     list_all (\<lambda>(u, v). u \<in> set (node_names gr) \<and> v \<in> set (node_names gr)) (edges gr))"

section \<open>Notions used in the statements\<close>

text \<open>
  For the statements about dominance: the paths of a graph, as the lists of the nodes
  they visit, and the set of the dominators of a node.
\<close>

fun walk :: "(string \<times> string) list \<Rightarrow> string list \<Rightarrow> bool" where
  "walk es [] = True"
| "walk es [x] = True"
| "walk es (x # y # p) = ((x, y) \<in> set es \<and> walk es (y # p))"

definition path :: "digraph \<Rightarrow> string \<Rightarrow> string list \<Rightarrow> string \<Rightarrow> bool" where
  "path gr r p n = (p \<noteq> [] \<and> hd p = r \<and> last p = n \<and> walk (edges gr) p)"

definition dominators :: "digraph \<Rightarrow> string \<Rightarrow> string \<Rightarrow> string set" where
  "dominators gr root n = {d \<in> set (node_names gr). dominates gr root d n}"

text \<open>The value of a string of decimal digits, read from the left.\<close>

definition dec_value :: "nat \<Rightarrow> string \<Rightarrow> nat" where
  "dec_value acc ds = foldl (\<lambda>a c. a * 10 + (code_point c - 48)) acc ds"






text \<open>
  For the statements about the graph: the pairs of node names that a raw edge stream
  stands for, each name decoded by the demangler and then escaped.
\<close>

definition raw_pairs :: "demangler \<Rightarrow> (string option \<times> string) list \<Rightarrow> (string \<times> string) set" where
  "raw_pairs demangle es = {(encode_symbol s, encode_symbol d) | src dest s d.
     (src, dest) \<in> set es \<and> demangle src = Inr s \<and> demangle (Some dest) = Inr d}"

section \<open>Properties of the decoder\<close>

subsection \<open>Decimal literals\<close>

lemma str_split_not_Nil: "str_split sep s \<noteq> []"
  by (induction s) (auto split: list.splits)

lemma code_point_digit_char: "d < 10 \<Longrightarrow> code_point (digit_char d) = 48 + d"
  by (simp add: code_point_def digit_char_def)

lemma isdecimal_digit_char: "d < 10 \<Longrightarrow> isdecimal (digit_char d)"
  by (simp add: isdecimal_def code_point_digit_char)

lemma digit_in_digit_char: "d < 10 \<Longrightarrow> digit_in 10 (digit_char d) = Some d"
  by (simp add: digit_in_def digit_value_def code_point_digit_char)

lemma digits10_decimal: "\<forall>c \<in> set (digits10 n). isdecimal c"
proof (induction n rule: digits10.induct)
  case (1 n)
  show ?case
  proof (cases "n < 10")
    case True
    then show ?thesis by (subst digits10.simps) (simp add: isdecimal_digit_char)
  next
    case False
    with 1 show ?thesis by (subst digits10.simps) (simp add: isdecimal_digit_char)
  qed
qed

lemma digits10_nonempty: "digits10 n \<noteq> []"
  by (subst digits10.simps) simp


lemma int_digits_decimal:
  "\<forall>c \<in> set ds. isdecimal c \<Longrightarrow> int_digits 10 acc ds = Some (dec_value acc ds)"
proof (induction "10::nat" acc ds rule: int_digits.induct)
  case (1 acc)
  then show ?case by (simp add: dec_value_def)
next
  case (2 acc c)
  then show ?case
    by (auto simp: dec_value_def digit_in_def digit_value_def isdecimal_def)
next
  case (3 acc c d ds)
  have c: "isdecimal c" and d: "isdecimal d" using 3(3) by auto
  from c have ne: "c \<noteq> CHR ''_''" by (auto simp: isdecimal_def code_point_def)
  from c have dc: "digit_in 10 c = Some (code_point c - 48)"
    by (auto simp: digit_in_def digit_value_def isdecimal_def)
  have "int_digits 10 (acc * 10 + (code_point c - 48)) (d # ds) =
        Some (dec_value (acc * 10 + (code_point c - 48)) (d # ds))"
    using 3(2) [OF ne dc] 3(3) by simp
  then show ?case using ne dc by (simp add: dec_value_def)
qed

lemma dec_value_digits10: "dec_value 0 (digits10 n) = n"
proof (induction n rule: digits10.induct)
  case (1 n)
  show ?case
  proof (cases "n < 10")
    case True
    then show ?thesis
      by (subst digits10.simps) (simp add: dec_value_def code_point_digit_char)
  next
    case False
    with 1 have "dec_value 0 (digits10 (n div 10)) = n div 10" by simp
    with False show ?thesis
      by (subst digits10.simps) (simp add: dec_value_def code_point_digit_char)
  qed
qed

lemma isdecimal_not_space: "isdecimal c \<Longrightarrow> \<not> isspace_int c"
  by (auto simp: isdecimal_def isspace_int_def Let_def)

lemma strip_int_decimal:
  assumes "\<forall>c \<in> set ds. isdecimal c"
  shows "strip_int ds = ds"
proof (cases ds)
  case Nil
  then show ?thesis by (simp add: strip_int_def)
next
  case (Cons c cs)
  with assms have 1: "dropWhile isspace_int ds = ds"
    by (simp add: isdecimal_not_space)
  have "rev ds \<noteq> []" using Cons by simp
  moreover have "hd (rev ds) \<in> set ds" using Cons by (metis calculation hd_in_set set_rev)
  ultimately have "dropWhile isspace_int (rev ds) = rev ds"
    using assms by (cases "rev ds") (auto simp: isdecimal_not_space)
  with 1 show ?thesis by (simp add: strip_int_def)
qed

lemma py_int_decimal:
  assumes "ds \<noteq> []" "\<forall>c \<in> set ds. isdecimal c"
  shows "py_int 10 ds =
    (if max_str_digits < length ds then Inl ValueError else Inr (int (dec_value 0 ds)))"
proof -
  obtain c cs where ds: "ds = c # cs" using assms(1) by (cases ds) auto
  have c: "isdecimal c" using assms(2) ds by simp
  then have sg: "c \<noteq> CHR ''-''" "c \<noteq> CHR ''+''" by (auto simp: isdecimal_def code_point_def)
  from c have dc: "digit_in 10 c = Some (code_point c - 48)"
    by (auto simp: digit_in_def digit_value_def isdecimal_def)
  have id: "int_digits 10 (code_point c - 48) cs = Some (dec_value (code_point c - 48) cs)"
    using int_digits_decimal assms(2) ds by simp
  have "\<forall>d \<in> set ds. d \<noteq> CHR ''_''"
    using assms(2) by (auto simp: isdecimal_def code_point_def)
  then have f: "filter (\<lambda>d. d \<noteq> CHR ''_'') ds = ds" by simp
  have b: "\<not> binary_base 10" by (simp add: binary_base_def)
  have "py_int 10 ds =
    (if max_str_digits < length (filter (\<lambda>d. d \<noteq> CHR ''_'') ds) then Inl ValueError
     else Inr (int (dec_value (code_point c - 48) cs)))"
    using sg dc id b strip_int_decimal [OF assms(2)] ds
    by (simp add: py_int_def)
  then show ?thesis unfolding f by (simp add: ds dec_value_def)
qed

lemma py_int_digits10:
  "py_int 10 (digits10 n) =
     (if max_str_digits < length (digits10 n) then Inl ValueError else Inr (int n))"
  using py_int_decimal [OF digits10_nonempty digits10_decimal] by (simp add: dec_value_digits10)

lemma length_digits10_le: "0 < k \<Longrightarrow> n < 10 ^ k \<Longrightarrow> length (digits10 n) \<le> k"
proof (induction n arbitrary: k rule: digits10.induct)
  case (1 n)
  show ?case
  proof (cases "n < 10")
    case True
    then show ?thesis using "1.prems" by (subst digits10.simps) simp
  next
    case False
    obtain j where k: "k = Suc j" using "1.prems"(1) by (cases k) auto
    have j: "0 < j" using False "1.prems"(2) k by (cases j) auto
    have "n div 10 < 10 ^ j" using "1.prems"(2) k by (simp add: less_mult_imp_div_less mult.commute)
    then have "length (digits10 (n div 10)) \<le> j" using False j by (intro "1.IH") auto
    then show ?thesis using False k by (subst digits10.simps) simp
  qed
qed

text \<open>
  The length prefix of a component that a runtime can hold is within the limit: the
  length of a \<open>str\<close> is below \<open>2 ^ 63\<close>, which has nineteen digits.
\<close>

lemma length_digits10_str: "n < 2 ^ 63 \<Longrightarrow> length (digits10 n) \<le> max_str_digits"
proof -
  assume "n < 2 ^ 63"
  moreover have "(2::nat) ^ 63 < 10 ^ 19" by simp
  ultimately have "n < 10 ^ 19" by simp
  then have "length (digits10 n) \<le> 19" by (intro length_digits10_le) simp_all
  then show ?thesis by (simp add: max_str_digits_def)
qed


subsection \<open>The component loop\<close>


lemma isdecimal_isnumeric: "isdecimal c \<Longrightarrow> isnumeric c"
  by (simp add: isnumeric_def)

lemma scan_digits_stop:
  assumes "\<forall>c \<in> set ds. isnumeric c" "rest \<noteq> []" "\<not> isnumeric (hd rest)" "i \<le> length ds"
  shows "scan_digits (ds @ rest) i = Inr (length ds)"
  using assms(4)
proof (induction "length ds - i" arbitrary: i)
  case 0
  then have i: "i = length ds" by simp
  have "(ds @ rest) ! length ds = hd rest"
    using assms(2) by (simp add: nth_append hd_conv_nth)
  then show ?case using assms(2,3) i
    by (subst scan_digits.simps) simp
next
  case (Suc k)
  then have lt: "i < length ds" by simp
  then have "isnumeric ((ds @ rest) ! i)" using assms(1) by (simp add: nth_append)
  moreover have "scan_digits (ds @ rest) (Suc i) = Inr (length ds)"
    using Suc lt by simp
  ultimately show ?case using lt by (subst scan_digits.simps) simp
qed


lemma digits10_numeric: "\<forall>c \<in> set (digits10 n). isnumeric c"
  using digits10_decimal by (auto intro: isdecimal_isnumeric)

lemma hd_digits10: "isnumeric (hd (digits10 n)) \<and> hd (digits10 n) \<noteq> CHR ''_''"
proof -
  have "hd (digits10 n) \<in> set (digits10 n)" using digits10_nonempty by simp
  then have "isdecimal (hd (digits10 n))" using digits10_decimal by blast
  then show ?thesis by (auto simp: isnumeric_def isdecimal_def code_point_def)
qed

lemma length_digits10_pos: "1 \<le> length (digits10 n)"
  using digits10_nonempty [of n] by (cases "digits10 n") auto

lemma parse_parts_last:
  "t \<noteq> [] \<Longrightarrow> \<not> isnumeric (hd t) \<Longrightarrow> parse_parts t acc = Inr (acc @ [t])"
  by (subst parse_parts.simps) simp

lemma parse_parts_component:
  assumes "c \<noteq> []" "\<not> isnumeric (hd c)" "length (digits10 (length c)) \<le> max_str_digits"
  shows "parse_parts (digits10 (length c) @ c @ rest) acc = parse_parts rest (acc @ [c])"
proof -
  let ?ds = "digits10 (length c)"
  let ?s = "?ds @ c @ rest"
  have hd: "hd ?s = hd ?ds" using digits10_nonempty by simp
  have sc: "scan_digits ?s 1 = Inr (length ?ds)"
    using scan_digits_stop [of ?ds "c @ rest" 1] assms digits10_numeric length_digits10_pos
    by simp
  have "parse_parts ?s acc =
    (case py_int 10 (slice_to ?s (int (length ?ds))) of
       Inl e \<Rightarrow> Inl e
     | Inr n \<Rightarrow> parse_parts (slice_from (slice_from ?s (int (length ?ds))) n)
                 (acc @ [slice_to (slice_from ?s (int (length ?ds))) n]))"
    using hd hd_digits10 [of "length c"] digits10_nonempty [of "length c"] sc
    by (subst parse_parts.simps) simp
  also have "slice_to ?s (int (length ?ds)) = ?ds" by (simp add: slice_to_def)
  also have "slice_from ?s (int (length ?ds)) = c @ rest" by (simp add: slice_from_def)
  finally show ?thesis
    using assms(3) by (simp add: py_int_digits10 slice_to_def slice_from_def)
qed

lemma parse_parts_components:
  assumes "\<forall>c \<in> set comps. c \<noteq> [] \<and> \<not> isnumeric (hd c) \<and>
             length (digits10 (length c)) \<le> max_str_digits"
  shows "parse_parts (concat (map (\<lambda>c. digits10 (length c) @ c) comps) @ rest) acc =
         parse_parts rest (acc @ comps)"
  using assms
proof (induction comps arbitrary: acc)
  case Nil
  then show ?case by simp
next
  case (Cons c comps)
  then show ?case by (simp add: parse_parts_component)
qed



lemma slice_to_minus2: "slice_to xs (- 2) = butlast (butlast xs)"
  by (simp add: slice_to_def butlast_conv_take numeral_2_eq_2)


lemma demangle_rust_components:
  assumes "\<forall>c \<in> set comps. c \<noteq> [] \<and> \<not> isnumeric (hd c) \<and>
             length (digits10 (length c)) \<le> max_str_digits"
    and "final \<noteq> []" "\<not> isnumeric (hd final)"
  shows "demangle_rust (Some (''_ZN'' @ concat (map (\<lambda>c. digits10 (length c) @ c) comps) @ final)) =
    Inr (replace (replace (replace (join ''::'' (butlast (butlast (comps @ [final]))))
       ''$u20$'' '' '') ''$LT$'' ''<'') ''$GT$'' ''>'')"
proof -
  have "parse_parts (concat (map (\<lambda>c. digits10 (length c) @ c) comps) @ final) [] = Inr (comps @ [final])"
    using parse_parts_components [OF assms(1), of final "[]"] parse_parts_last [OF assms(2,3)]
    by simp
  then show ?thesis
    by (simp add: slice_from_def slice_to_minus2 del: butlast_snoc)
qed



text \<open>
  C6. A well-formed compressed identifier is the marker, components that are each
  written as their length in decimal followed by their characters, and a last part that
  starts with a character that is not numeric. The decoder parses the components, drops
  the last two parts, joins the others with \<^verbatim>\<open>::\<close> and applies the three
  substitutions. The example of the specification decodes to
  \<^verbatim>\<open>core::fmt::Debug::debug_tup\<close>. The length prefix of a component is within the
  limit of the integer conversion, as it is for every component that a runtime can hold
  (\<open>length_digits10_str\<close>).
\<close>

theorem demangle_rust_well_formed:
  assumes "\<forall>c \<in> set comps. c \<noteq> [] \<and> \<not> isnumeric (hd c) \<and>
             length (digits10 (length c)) \<le> max_str_digits"
    and "final \<noteq> []" and "\<not> isnumeric (hd final)"
  shows "demangle_rust (Some (''_ZN'' @ concat (map (\<lambda>c. digits10 (length c) @ c) comps) @ final)) =
           Inr (replace (replace (replace (join ''::'' (butlast (butlast (comps @ [final]))))
                  ''$u20$'' '' '') ''$LT$'' ''<'') ''$GT$'' ''>'')
         \<and> demangle_rust (Some ''_ZN4core3fmt5Debug9debug_tup17h1234567890abcdefE'') =
             Inr ''core::fmt::Debug::debug_tup''"
proof
  show "demangle_rust (Some (''_ZN'' @ concat (map (\<lambda>c. digits10 (length c) @ c) comps) @ final)) =
           Inr (replace (replace (replace (join ''::'' (butlast (butlast (comps @ [final]))))
                  ''$u20$'' '' '') ''$LT$'' ''<'') ''$GT$'' ''>'')"
    using assms by (rule demangle_rust_components)
next
  show "demangle_rust (Some ''_ZN4core3fmt5Debug9debug_tup17h1234567890abcdefE'') =
          Inr ''core::fmt::Debug::debug_tup''"
    by code_simp
qed

theorem demangle_rust_well_formed_witness:
  "\<not> isnumeric CHR ''a'' \<and> \<not> isnumeric CHR ''x'' \<and> \<not> isnumeric CHR ''h'' \<and> \<not> isnumeric CHR ''E'' \<and>
   demangle_rust (Some ''_ZN10a$LT$b$GT$1x2h1E'') = Inr ''a<b>::x''"
proof -
  have n: "\<not> isnumeric CHR ''a''" "\<not> isnumeric CHR ''x''" "\<not> isnumeric CHR ''h''" "\<not> isnumeric CHR ''E''"
    by (simp_all add: isnumeric_def isdecimal_def code_point_def)
  have d: "length (digits10 (length ''a$LT$b$GT$'')) \<le> max_str_digits"
    "length (digits10 (length ''x'')) \<le> max_str_digits"
    "length (digits10 (length ''h1'')) \<le> max_str_digits"
    by code_simp+
  have h: "\<forall>c \<in> set [''a$LT$b$GT$'', ''x'', ''h1'']. c \<noteq> [] \<and> \<not> isnumeric (hd c) \<and>
             length (digits10 (length c)) \<le> max_str_digits"
    using n d by simp
  have l: "''_ZN'' @ concat (map (\<lambda>c. digits10 (length c) @ c) [''a$LT$b$GT$'', ''x'', ''h1'']) @ ''E'' =
           ''_ZN10a$LT$b$GT$1x2h1E''"
    by code_simp
  have r: "replace (replace (replace (join ''::'' (butlast (butlast ([''a$LT$b$GT$'', ''x'', ''h1''] @ [''E'']))))
             ''$u20$'' '' '') ''$LT$'' ''<'') ''$GT$'' ''>'' = ''a<b>::x''"
    by code_simp
  have "demangle_rust (Some ''_ZN10a$LT$b$GT$1x2h1E'') = Inr ''a<b>::x''"
    using demangle_rust_well_formed [OF h, of "''E''"] n(4) unfolding l r by simp
  with n show ?thesis by simp
qed




text \<open>
  C9. An identifier that does not start with the marker \<^verbatim>\<open>_ZN\<close> is returned unchanged,
  so decoding it and decoding the result again both give the identifier itself.
\<close>

theorem demangle_rust_passthrough:
  assumes "\<not> prefix ''_ZN'' s"
  shows "demangle_rust (Some s) = Inr s \<and>
         (case demangle_rust (Some s) of Inl e \<Rightarrow> Inl e | Inr r \<Rightarrow> demangle_rust (Some r)) = Inr s"
  using assms by simp

theorem demangle_rust_passthrough_witness:
  "\<not> prefix ''_ZN'' ''main'' \<and> demangle_rust (Some ''main'') = Inr ''main'' \<and>
   (case demangle_rust (Some ''main'') of Inl e \<Rightarrow> Inl e | Inr r \<Rightarrow> demangle_rust (Some r)) = Inr ''main''"
  using demangle_rust_passthrough [of "''main''"] by simp

section \<open>Properties of the disassembly parser\<close>


lemma not_hexlower_space: "\<not> ishexlower CHR '' ''"
  by (simp add: ishexlower_def isdecimal_def code_point_def)

lemma not_word_gt: "\<not> isword CHR ''>''"
  by (simp add: isword_def isalpha_def isnumeric_def isdecimal_def code_point_def)

lemma new_symbol_match_line:
  assumes "addr \<noteq> []" "\<forall>c \<in> set addr. ishexlower c" "name \<noteq> []" "\<forall>c \<in> set name. isword c"
  shows "new_symbol_match (addr @ '' <'' @ name @ ''>:'' @ rest) = Some name"
proof -
  have 1: "takeWhile ishexlower (addr @ '' <'' @ name @ ''>:'' @ rest) = addr"
    using assms(2) by (simp add: not_hexlower_space)
  have 2: "dropWhile ishexlower (addr @ '' <'' @ name @ ''>:'' @ rest) = '' <'' @ name @ ''>:'' @ rest"
    using assms(2) by (simp add: not_hexlower_space)
  have 3: "takeWhile isword (name @ ''>:'' @ rest) = name"
    using assms(4) by (simp add: not_word_gt)
  have 4: "dropWhile isword (name @ ''>:'' @ rest) = ''>:'' @ rest"
    using assms(4) by (simp add: not_word_gt)
  show ?thesis
    unfolding new_symbol_match_def 1 2 using assms(1,3) 3 4 by (simp add: Let_def)
qed

lemma parse_lines_function_start:
  assumes "new_symbol_match line = Some name"
  shows "parse_lines symb (pre @ line # post) = parse_lines symb pre @ parse_lines (Some name) post"
  using assms
proof (induction pre arbitrary: symb)
  case Nil
  then show ?case by simp
next
  case (Cons l pre)
  then show ?case by (cases "new_symbol_match l") simp_all
qed

lemma parse_lines_no_function_start:
  assumes "\<forall>l \<in> set lines. new_symbol_match l = None"
  shows "parse_lines symb lines = map (Pair symb) (concat (map symbol_ref_findall lines))"
  using assms by (induction lines) simp_all


text \<open>
  C10. A line that starts with a lowercase hexadecimal address, a space, a name in angle
  brackets and a colon only sets the current symbol: whatever follows the colon on the
  line, and whatever the current symbol was, the line yields no pair, and the lines after
  it are parsed with the name as the current symbol.
\<close>

theorem parse_edges_function_start:
  assumes "addr \<noteq> []" and "\<forall>c \<in> set addr. ishexlower c"
    and "name \<noteq> []" and "\<forall>c \<in> set name. isword c"
    and "str_split (CHR 0x0A) asm = pre @ (addr @ '' <'' @ name @ ''>:'' @ rest) # post"
  shows "parse_edges asm = parse_lines None pre @ parse_lines (Some name) post"
  unfolding parse_edges_def assms(5)
  using new_symbol_match_line [OF assms(1-4)] by (rule parse_lines_function_start)

theorem parse_edges_function_start_witness:
  "parse_edges ('' call <bar>'' @ [CHR 0x0A] @ ''1020 <main>: <x>'' @ [CHR 0x0A] @ '' call <foo>'') =
     [(None, ''bar''), (Some ''main'', ''foo'')]"
proof -
  have s: "str_split (CHR 0x0A) ('' call <bar>'' @ [CHR 0x0A] @ ''1020 <main>: <x>'' @ [CHR 0x0A] @ '' call <foo>'') =
        ['' call <bar>''] @ (''1020'' @ '' <'' @ ''main'' @ ''>:'' @ '' <x>'') # ['' call <foo>'']"
    by code_simp
  have a: "\<forall>c \<in> set ''1020''. ishexlower c"
    by (simp add: ishexlower_def isdecimal_def code_point_def)
  have b: "\<forall>c \<in> set ''main''. isword c"
    by (simp add: isword_def isalpha_def code_point_def)
  have l: "parse_lines None ['' call <bar>''] = [(None, ''bar'')]" by code_simp
  have r: "parse_lines (Some ''main'') ['' call <foo>''] = [(Some ''main'', ''foo'')]" by code_simp
  show ?thesis
    using parse_edges_function_start [OF _ a _ b s] unfolding l r by simp
qed

text \<open>
  C3, as the code has it. When no line of the text matches the function-start pattern,
  the parser yields one pair for every reference of every line, in order, each with
  \<open>None\<close> as its current symbol; so the sequence is empty only if no line holds a
  reference.
\<close>

theorem parse_edges_no_function_start:
  assumes "\<forall>l \<in> set (str_split (CHR 0x0A) asm). new_symbol_match l = None"
  shows "parse_edges asm = map (Pair None) (concat (map symbol_ref_findall (str_split (CHR 0x0A) asm)))"
  unfolding parse_edges_def using assms by (rule parse_lines_no_function_start)

theorem parse_edges_no_function_start_witness:
  "parse_edges ('' jmp <a> <b>'' @ [CHR 0x0A] @ ''nop'' @ [CHR 0x0A] @ '' call <c>'') =
     [(None, ''a''), (None, ''b''), (None, ''c'')]"
proof -
  have s: "str_split (CHR 0x0A) ('' jmp <a> <b>'' @ [CHR 0x0A] @ ''nop'' @ [CHR 0x0A] @ '' call <c>'') =
           ['' jmp <a> <b>'', ''nop'', '' call <c>'']"
    by code_simp
  have n: "new_symbol_match '' jmp <a> <b>'' = None" "new_symbol_match ''nop'' = None"
    "new_symbol_match '' call <c>'' = None"
    by code_simp+
  have h: "\<forall>l \<in> set (str_split (CHR 0x0A) ('' jmp <a> <b>'' @ [CHR 0x0A] @ ''nop'' @ [CHR 0x0A] @ '' call <c>'')).
             new_symbol_match l = None"
    unfolding s using n by simp
  have r: "map (Pair None) (concat (map symbol_ref_findall ['' jmp <a> <b>'', ''nop'', '' call <c>''])) =
           [(None :: string option, ''a''), (None, ''b''), (None, ''c'')]"
    by code_simp
  show ?thesis
    using parse_edges_no_function_start [OF h] unfolding s r .
qed

text \<open>
  The claim C3 as stated fails: the one line \<^verbatim>\<open> call <foo>\<close> is no function start, and
  the parser yields a pair for its reference.
\<close>

theorem parse_edges_empty_counterexample:
  "new_symbol_match '' call <foo>'' = None \<and>
   str_split (CHR 0x0A) '' call <foo>'' = ['' call <foo>''] \<and>
   parse_edges '' call <foo>'' = [(None, ''foo'')]"
  by code_simp

section \<open>Properties of the size extractor\<close>


















section \<open>Properties of the graph builder and of the printed description\<close>


lemma node_names_add_node:
  "node_names (add_node n gr) = (if n \<in> set (node_names gr) then node_names gr else node_names gr @ [n])"
  by (simp add: add_node_def has_node_def node_names_def)

lemma edges_add_node: "edges (add_node n gr) = edges gr"
  by (simp add: add_node_def)

lemma node_names_edges_update: "node_names (gr\<lparr>edges := e\<rparr>) = node_names gr"
  by (simp add: node_names_def)

lemma set_node_names_add_edge:
  "set (node_names (add_edge u v gr)) = insert u (insert v (set (node_names gr)))"
  by (auto simp: add_edge_def Let_def node_names_add_node node_names_edges_update)

lemma set_edges_add_edge: "set (edges (add_edge u v gr)) = insert (u, v) (set (edges gr))"
  by (auto simp: add_edge_def Let_def edges_add_node)

lemma distinct_edges_add_edge: "distinct (edges gr) \<Longrightarrow> distinct (edges (add_edge u v gr))"
  by (auto simp: add_edge_def Let_def edges_add_node)

lemma distinct_node_names_add_edge:
  "distinct (node_names gr) \<Longrightarrow> distinct (node_names (add_edge u v gr))"
  by (auto simp: add_edge_def Let_def node_names_add_node node_names_edges_update)

lemma node_names_set_size: "node_names (set_size n sz gr) = node_names gr"
  by (induction "nodes gr") (auto simp: set_size_def node_names_def)

lemma edges_set_size: "edges (set_size n sz gr) = edges gr"
  by (simp add: set_size_def)

lemma add_sizes_keeps:
  "add_sizes demangle ss gr = Inr gr' \<Longrightarrow> node_names gr' = node_names gr \<and> edges gr' = edges gr"
proof (induction ss arbitrary: gr)
  case Nil
  then show ?case by simp
next
  case (Cons p ss)
  obtain symb sz where p: "p = (symb, sz)" by (cases p)
  from Cons.prems obtain s where s: "demangle (Some symb) = Inr s"
    by (auto simp: p split: sum.splits)
  let ?g = "if has_node (encode_symbol s) gr then set_size (encode_symbol s) sz gr else gr"
  have "add_sizes demangle ss ?g = Inr gr'" using Cons.prems by (simp add: p s)
  then have "node_names gr' = node_names ?g \<and> edges gr' = edges ?g" by (rule Cons.IH)
  then show ?case by (simp add: node_names_set_size edges_set_size)
qed


lemma raw_pairs_Nil: "raw_pairs demangle [] = {}"
  by (simp add: raw_pairs_def)

lemma raw_pairs_Cons:
  "demangle src = Inr s \<Longrightarrow> demangle (Some dest) = Inr d \<Longrightarrow>
   raw_pairs demangle ((src, dest) # es) = insert (encode_symbol s, encode_symbol d) (raw_pairs demangle es)"
  by (auto simp: raw_pairs_def)

lemma add_edges_graph:
  assumes "add_edges demangle es gr = Inr gr'"
  shows "set (edges gr') = set (edges gr) \<union> raw_pairs demangle es
       \<and> set (node_names gr') = set (node_names gr) \<union> fst ` raw_pairs demangle es \<union> snd ` raw_pairs demangle es
       \<and> (distinct (edges gr) \<longrightarrow> distinct (edges gr'))
       \<and> (distinct (node_names gr) \<longrightarrow> distinct (node_names gr'))
       \<and> (\<forall>(src, dest) \<in> set es. \<exists>s d. demangle src = Inr s \<and> demangle (Some dest) = Inr d)"
  using assms
proof (induction es arbitrary: gr)
  case Nil
  then show ?case by (simp add: raw_pairs_Nil)
next
  case (Cons p es)
  obtain src dest where p: "p = (src, dest)" by (cases p)
  from Cons.prems obtain s d where s: "demangle src = Inr s" and d: "demangle (Some dest) = Inr d"
    by (auto simp: p split: sum.splits)
  let ?g = "add_edge (encode_symbol s) (encode_symbol d) gr"
  have "add_edges demangle es ?g = Inr gr'" using Cons.prems by (simp add: p s d)
  from Cons.IH [OF this] show ?case
    using s d
    by (auto simp: p raw_pairs_Cons [OF s d] set_node_names_add_edge set_edges_add_edge
        distinct_edges_add_edge distinct_node_names_add_edge)
qed

lemma add_edges_dot_edges:
  assumes "add_edges demangle es gr = Inr gr'"
  shows "\<exists>els. dot_edges demangle es = (els, None) \<and>
     list_all2 (\<lambda>(src, dest) l. \<exists>s d. demangle src = Inr s \<and> demangle (Some dest) = Inr d \<and>
        l = edge_line (encode_symbol s) (encode_symbol d)) es els"
  using assms
proof (induction es arbitrary: gr)
  case Nil
  then show ?case by simp
next
  case (Cons p es)
  obtain src dest where p: "p = (src, dest)" by (cases p)
  from Cons.prems obtain s d where s: "demangle src = Inr s" and d: "demangle (Some dest) = Inr d"
    by (auto simp: p split: sum.splits)
  let ?g = "add_edge (encode_symbol s) (encode_symbol d) gr"
  have "add_edges demangle es ?g = Inr gr'" using Cons.prems by (simp add: p s d)
  from Cons.IH [OF this] obtain els where "dot_edges demangle es = (els, None)"
    and "list_all2 (\<lambda>(src, dest) l. \<exists>s d. demangle src = Inr s \<and> demangle (Some dest) = Inr d \<and>
        l = edge_line (encode_symbol s) (encode_symbol d)) es els"
    by blast
  then show ?case by (simp add: p s d)
qed

lemma add_sizes_dot_sizes:
  assumes "add_sizes demangle ss gr = Inr gr'"
  shows "\<exists>sls. dot_sizes demangle ss = (sls, None) \<and>
     list_all2 (\<lambda>(symb, sz) l. \<exists>s. demangle (Some symb) = Inr s \<and> l = size_line (encode_symbol s) sz) ss sls"
  using assms
proof (induction ss arbitrary: gr)
  case Nil
  then show ?case by simp
next
  case (Cons p ss)
  obtain symb sz where p: "p = (symb, sz)" by (cases p)
  from Cons.prems obtain s where s: "demangle (Some symb) = Inr s"
    by (auto simp: p split: sum.splits)
  let ?g = "if has_node (encode_symbol s) gr then set_size (encode_symbol s) sz gr else gr"
  have "add_sizes demangle ss ?g = Inr gr'" using Cons.prems by (simp add: p s)
  from Cons.IH [OF this] obtain sls where "dot_sizes demangle ss = (sls, None)"
    and "list_all2 (\<lambda>(symb, sz) l. \<exists>s. demangle (Some symb) = Inr s \<and> l = size_line (encode_symbol s) sz) ss sls"
    by blast
  then show ?case by (simp add: p s)
qed

lemma to_digraph_parts:
  assumes "to_digraph asm_out nm_out demangle = Inr gr"
  obtains gr0 sizes where "add_edges demangle (parse_edges asm_out) empty_digraph = Inr gr0"
    and "symbol_sizes nm_out = Inr sizes" and "add_sizes demangle sizes gr0 = Inr gr"
  using assms by (auto simp: to_digraph_def split: sum.splits)


text \<open>
  C8. In the graph that the builder returns, the nodes are exactly the decoded and
  escaped endpoints of the raw edges: both endpoints of every raw edge and of every
  edge of the graph are nodes, with or without a size entry, and the loop over the size
  entries leaves the nodes as the loop over the edges made them, so a size entry for a
  symbol that is no node adds none.
\<close>

theorem to_digraph_nodes:
  assumes "to_digraph asm_out nm_out demangle = Inr gr"
  shows "set (node_names gr) =
           fst ` raw_pairs demangle (parse_edges asm_out) \<union> snd ` raw_pairs demangle (parse_edges asm_out)
       \<and> (\<forall>(src, dest) \<in> set (parse_edges asm_out). \<exists>s d.
             demangle src = Inr s \<and> demangle (Some dest) = Inr d \<and>
             encode_symbol s \<in> set (node_names gr) \<and> encode_symbol d \<in> set (node_names gr))
       \<and> (\<forall>(u, v) \<in> set (edges gr). u \<in> set (node_names gr) \<and> v \<in> set (node_names gr))
       \<and> (\<exists>gr0. add_edges demangle (parse_edges asm_out) empty_digraph = Inr gr0 \<and>
             node_names gr = node_names gr0)"
proof -
  from assms obtain gr0 sizes where e: "add_edges demangle (parse_edges asm_out) empty_digraph = Inr gr0"
    and "symbol_sizes nm_out = Inr sizes" and a: "add_sizes demangle sizes gr0 = Inr gr"
    by (rule to_digraph_parts)
  from add_sizes_keeps [OF a] have k: "node_names gr = node_names gr0" "edges gr = edges gr0" by simp_all
  let ?P = "raw_pairs demangle (parse_edges asm_out)"
  from add_edges_graph [OF e]
  have E: "set (edges gr0) = ?P" and N: "set (node_names gr0) = fst ` ?P \<union> snd ` ?P"
    and D: "\<forall>(src, dest) \<in> set (parse_edges asm_out). \<exists>s d. demangle src = Inr s \<and> demangle (Some dest) = Inr d"
    by (simp_all add: empty_digraph_def node_names_def)
  have 1: "set (node_names gr) = fst ` ?P \<union> snd ` ?P" using N k by simp
  have 2: "\<forall>(src, dest) \<in> set (parse_edges asm_out). \<exists>s d.
             demangle src = Inr s \<and> demangle (Some dest) = Inr d \<and>
             encode_symbol s \<in> set (node_names gr) \<and> encode_symbol d \<in> set (node_names gr)"
  proof (clarify)
    fix src dest assume m: "(src, dest) \<in> set (parse_edges asm_out)"
    with D obtain s d where sd: "demangle src = Inr s" "demangle (Some dest) = Inr d" by blast
    with m have "(encode_symbol s, encode_symbol d) \<in> ?P" by (auto simp: raw_pairs_def)
    then have "encode_symbol s \<in> fst ` ?P" "encode_symbol d \<in> snd ` ?P" by force+
    with sd 1 show "\<exists>s d. demangle src = Inr s \<and> demangle (Some dest) = Inr d \<and>
             encode_symbol s \<in> set (node_names gr) \<and> encode_symbol d \<in> set (node_names gr)"
      by blast
  qed
  have 3: "\<forall>(u, v) \<in> set (edges gr). u \<in> set (node_names gr) \<and> v \<in> set (node_names gr)"
    using N E k by force
  from 1 2 3 e k show ?thesis by blast
qed

theorem to_digraph_nodes_witness:
  "to_digraph (''0 <A>:'' @ [CHR 0x0A] @ '' call <B>'') (''0 10 T B'' @ [CHR 0x0A] @ ''0 10 T Q'') demangle_rust =
     Inr \<lparr>nodes = [(''A'', None), (''B'', Some 16)], edges = [(''A'', ''B'')]\<rparr>
   \<and> symbol_sizes (''0 10 T B'' @ [CHR 0x0A] @ ''0 10 T Q'') = Inr [(''B'', 16), (''Q'', 16)]
   \<and> (\<exists>gr0. add_edges demangle_rust (parse_edges (''0 <A>:'' @ [CHR 0x0A] @ '' call <B>'')) empty_digraph = Inr gr0 \<and>
         node_names gr0 = [''A'', ''B''])"
proof -
  let ?a = "''0 <A>:'' @ [CHR 0x0A] @ '' call <B>''"
  let ?n = "''0 10 T B'' @ [CHR 0x0A] @ ''0 10 T Q''"
  let ?g = "\<lparr>nodes = [(''A'', None), (''B'', Some 16)], edges = [(''A'', ''B'')]\<rparr>"
  have ev: "to_digraph ?a ?n demangle_rust = Inr ?g" by code_simp
  have sz: "symbol_sizes ?n = Inr [(''B'', 16), (''Q'', 16)]" by code_simp
  have nn: "node_names ?g = [''A'', ''B'']" by (simp add: node_names_def)
  from to_digraph_nodes [OF ev]
  have "\<exists>gr0. add_edges demangle_rust (parse_edges ?a) empty_digraph = Inr gr0 \<and> node_names ?g = node_names gr0"
    by blast
  then have "\<exists>gr0. add_edges demangle_rust (parse_edges ?a) empty_digraph = Inr gr0 \<and> node_names gr0 = [''A'', ''B'']"
    unfolding nn by metis
  with ev sz show ?thesis by blast
qed

text \<open>
  C5, as the code has it. The graph that the builder returns has no edge twice: its edges
  are the distinct decoded and escaped pairs of the raw edges, and the raw edges
  \<open>[(A, B), (A, B), (B, C)]\<close> give the two edges \<open>A \<rightarrow> B\<close> and \<open>B \<rightarrow> C\<close>. The printed
  description has, between its opening line and the size lines, one edge line for every
  raw edge, in the order of the stream: a repeated reference is printed again.
\<close>

theorem to_digraph_simple_graph:
  assumes "to_digraph asm_out nm_out demangle = Inr gr"
  shows "distinct (edges gr)
       \<and> set (edges gr) = raw_pairs demangle (parse_edges asm_out)
       \<and> (\<exists>els sizes sls.
             to_dot asm_out nm_out demangle = (''digraph {'' # els @ sls @ [''}''], None) \<and>
             list_all2 (\<lambda>(src, dest) l. \<exists>s d. demangle src = Inr s \<and> demangle (Some dest) = Inr d \<and>
                l = edge_line (encode_symbol s) (encode_symbol d)) (parse_edges asm_out) els \<and>
             symbol_sizes nm_out = Inr sizes \<and>
             list_all2 (\<lambda>(symb, sz) l. \<exists>s. demangle (Some symb) = Inr s \<and>
                l = size_line (encode_symbol s) sz) sizes sls)
       \<and> add_edges demangle_rust [(Some ''A'', ''B''), (Some ''A'', ''B''), (Some ''B'', ''C'')] empty_digraph =
           Inr \<lparr>nodes = [(''A'', None), (''B'', None), (''C'', None)], edges = [(''A'', ''B''), (''B'', ''C'')]\<rparr>"
proof -
  from assms obtain gr0 sizes where e: "add_edges demangle (parse_edges asm_out) empty_digraph = Inr gr0"
    and z: "symbol_sizes nm_out = Inr sizes" and a: "add_sizes demangle sizes gr0 = Inr gr"
    by (rule to_digraph_parts)
  from add_sizes_keeps [OF a] have k: "edges gr = edges gr0" by simp
  from add_edges_graph [OF e]
  have 1: "distinct (edges gr)" and 2: "set (edges gr) = raw_pairs demangle (parse_edges asm_out)"
    unfolding k by (simp_all add: empty_digraph_def)
  from add_edges_dot_edges [OF e] obtain els where de: "dot_edges demangle (parse_edges asm_out) = (els, None)"
    and le: "list_all2 (\<lambda>(src, dest) l. \<exists>s d. demangle src = Inr s \<and> demangle (Some dest) = Inr d \<and>
                l = edge_line (encode_symbol s) (encode_symbol d)) (parse_edges asm_out) els"
    by blast
  from add_sizes_dot_sizes [OF a] obtain sls where ds: "dot_sizes demangle sizes = (sls, None)"
    and ls: "list_all2 (\<lambda>(symb, sz) l. \<exists>s. demangle (Some symb) = Inr s \<and>
                l = size_line (encode_symbol s) sz) sizes sls"
    by blast
  have td: "to_dot asm_out nm_out demangle = (''digraph {'' # els @ sls @ [''}''], None)"
    by (simp add: to_dot_def de z ds)
  have 4: "add_edges demangle_rust [(Some ''A'', ''B''), (Some ''A'', ''B''), (Some ''B'', ''C'')] empty_digraph =
           Inr \<lparr>nodes = [(''A'', None), (''B'', None), (''C'', None)], edges = [(''A'', ''B''), (''B'', ''C'')]\<rparr>"
    by code_simp
  from 1 2 td le z ls 4 show ?thesis by blast
qed

theorem to_digraph_simple_graph_witness:
  "to_digraph (''0 <A>:'' @ [CHR 0x0A] @ '' call <B>'' @ [CHR 0x0A] @ '' call <B>'') [] demangle_rust =
     Inr \<lparr>nodes = [(''A'', None), (''B'', None)], edges = [(''A'', ''B'')]\<rparr>
   \<and> distinct [(''A'', ''B'')]
   \<and> (\<exists>els sls. to_dot (''0 <A>:'' @ [CHR 0x0A] @ '' call <B>'' @ [CHR 0x0A] @ '' call <B>'') [] demangle_rust =
          (''digraph {'' # els @ sls @ [''}''], None) \<and> length els = 2)"
proof -
  let ?a = "''0 <A>:'' @ [CHR 0x0A] @ '' call <B>'' @ [CHR 0x0A] @ '' call <B>''"
  let ?g = "\<lparr>nodes = [(''A'', None), (''B'', None)], edges = [(''A'', ''B'')]\<rparr>"
  have ev: "to_digraph ?a [] demangle_rust = Inr ?g" by code_simp
  have pe: "parse_edges ?a = [(Some ''A'', ''B''), (Some ''A'', ''B'')]" by code_simp
  from to_digraph_simple_graph [OF ev]
  obtain els sls where d: "distinct (edges ?g)"
    and t: "to_dot ?a [] demangle_rust = (''digraph {'' # els @ sls @ [''}''], None)"
    and l: "list_all2 (\<lambda>(src, dest) l. \<exists>s d. demangle_rust src = Inr s \<and> demangle_rust (Some dest) = Inr d \<and>
                l = edge_line (encode_symbol s) (encode_symbol d)) (parse_edges ?a) els"
    by blast
  from l have "length els = 2" unfolding pe by (simp add: list_all2_lengthD [symmetric])
  with ev d t show ?thesis by auto
qed

text \<open>
  The claim C5 as stated fails in its last part: for a reference that occurs twice, the
  graph has the edge once and the printed description has its line twice.
\<close>

theorem to_dot_repeated_edge_counterexample:
  "to_digraph (''0 <A>:'' @ [CHR 0x0A] @ '' call <B>'' @ [CHR 0x0A] @ '' call <B>'') [] demangle_rust =
     Inr \<lparr>nodes = [(''A'', None), (''B'', None)], edges = [(''A'', ''B'')]\<rparr>
   \<and> to_dot (''0 <A>:'' @ [CHR 0x0A] @ '' call <B>'' @ [CHR 0x0A] @ '' call <B>'') [] demangle_rust =
       ([''digraph {'', edge_line ''A'' ''B'', edge_line ''A'' ''B'', ''}''], None)"
  by code_simp


section \<open>Properties of the dominance analysis\<close>

subsection \<open>Paths that avoid a set of nodes\<close>


lemma avoiding_iff: "(a, b) \<in> avoiding es X \<longleftrightarrow> (a, b) \<in> set es \<and> a \<notin> X \<and> b \<notin> X"
  by (auto simp: avoiding_def)

lemma reaches_rtrancl: "reaches gr X r n \<longleftrightarrow> r \<notin> X \<and> (r, n) \<in> (avoiding (edges gr) X)\<^sup>*"
  by (auto simp: reaches_def rtrancl_eq_or_trancl)

lemma reaches_refl: "r \<notin> X \<Longrightarrow> reaches gr X r r"
  by (simp add: reaches_def)

lemma reaches_notin: "reaches gr X r n \<Longrightarrow> n \<notin> X"
  unfolding reaches_def by (auto elim: tranclE simp: avoiding_iff)

lemma reaches_step:
  assumes "reaches gr X r x" "(x, y) \<in> set (edges gr)" "y \<notin> X"
  shows "reaches gr X r y"
proof -
  have "x \<notin> X" using assms(1) by (rule reaches_notin)
  then have "(x, y) \<in> avoiding (edges gr) X" using assms(2,3) by (simp add: avoiding_iff)
  then show ?thesis using assms(1) unfolding reaches_rtrancl by (auto intro: rtrancl_into_rtrancl)
qed

lemma reaches_induct [consumes 1, case_names start step]:
  assumes "reaches gr X r x"
    and "r \<notin> X \<Longrightarrow> P r"
    and "\<And>x y. reaches gr X r x \<Longrightarrow> P x \<Longrightarrow> (x, y) \<in> set (edges gr) \<Longrightarrow> y \<notin> X \<Longrightarrow> P y"
  shows "P x"
proof -
  have rX: "r \<notin> X" using assms(1) by (simp add: reaches_def)
  have "(r, x) \<in> (avoiding (edges gr) X)\<^sup>*" using assms(1) by (simp add: reaches_rtrancl)
  then show ?thesis
  proof (induction rule: rtrancl_induct)
    case base
    show ?case using rX by (rule assms(2))
  next
    case (step y z)
    have "reaches gr X r y" using step(1) rX by (simp add: reaches_rtrancl)
    then show ?case using step(2,3) by (auto simp: avoiding_iff intro: assms(3))
  qed
qed

lemma reaches_mono:
  assumes "reaches gr Y r n" "X \<subseteq> Y"
  shows "reaches gr X r n"
  using assms(1)
proof (induction rule: reaches_induct)
  case start
  then show ?case using assms(2) by (auto intro: reaches_refl)
next
  case (step x y)
  then show ?case using assms(2) by (auto intro: reaches_step)
qed

lemma reaches_first_visit:
  assumes "reaches gr X r x"
  shows "reaches gr (X \<union> Y) r x \<or> (\<exists>y \<in> Y. reaches gr (X \<union> (Y - {y})) r y)"
  using assms
proof (induction rule: reaches_induct)
  case start
  show ?case
  proof (cases "r \<in> Y")
    case True
    with start have "reaches gr (X \<union> (Y - {r})) r r" by (intro reaches_refl) simp
    with True show ?thesis by blast
  next
    case False
    with start show ?thesis by (auto intro: reaches_refl)
  qed
next
  case (step x y)
  from step.IH show ?case
  proof
    assume a: "reaches gr (X \<union> Y) r x"
    show ?thesis
    proof (cases "y \<in> Y")
      case True
      have "reaches gr (X \<union> (Y - {y})) r x" using a by (rule reaches_mono) auto
      then have "reaches gr (X \<union> (Y - {y})) r y" using step.hyps(2,3) by (auto intro: reaches_step)
      with True show ?thesis by blast
    next
      case False
      have "reaches gr (X \<union> Y) r y" using a step.hyps(2,3) False by (auto intro: reaches_step)
      then show ?thesis by simp
    qed
  next
    assume "\<exists>y \<in> Y. reaches gr (X \<union> (Y - {y})) r y"
    then show ?thesis by simp
  qed
qed

subsection \<open>Dominance is a partial order on the reachable nodes\<close>

lemma dominates_reachable: "dominates gr root d n \<Longrightarrow> reaches gr {} root n"
  by (simp add: dominates_def)

lemma dominates_refl: "reaches gr {} root n \<Longrightarrow> dominates gr root n n"
  using reaches_notin [of gr "{n}" root n] by (auto simp: dominates_def)

lemma dominator_reachable:
  assumes "dominates gr root d n"
  shows "reaches gr {} root d"
proof -
  from assms have "reaches gr {} root n" and n: "\<not> reaches gr {d} root n"
    by (simp_all add: dominates_def)
  from reaches_first_visit [OF this(1), of "{d}"] n show ?thesis by simp
qed

lemma root_dominates: "reaches gr {} root n \<Longrightarrow> dominates gr root root n"
  by (simp add: dominates_def reaches_def)

lemma dominates_root: "dominates gr root d root \<Longrightarrow> d = root"
  by (auto simp: dominates_def reaches_def)

lemma dominates_trans:
  assumes "dominates gr root a b" "dominates gr root b c"
  shows "dominates gr root a c"
proof (cases "a = b")
  case True
  with assms show ?thesis by simp
next
  case False
  have rc: "reaches gr {} root c" using assms(2) by (rule dominates_reachable)
  have "\<not> reaches gr {a} root c"
  proof
    assume "reaches gr {a} root c"
    from reaches_first_visit [OF this, of "{b}"]
    have "reaches gr ({a} \<union> {b}) root c \<or> reaches gr {a} root b" by simp
    moreover have "\<not> reaches gr {a} root b" using assms(1) by (simp add: dominates_def)
    ultimately have "reaches gr ({a} \<union> {b}) root c" by simp
    then have "reaches gr {b} root c" by (rule reaches_mono) simp
    then show False using assms(2) by (simp add: dominates_def)
  qed
  with rc show ?thesis by (simp add: dominates_def)
qed

lemma dominates_antisym:
  assumes "dominates gr root a b" "dominates gr root b a"
  shows "a = b"
proof (rule ccontr)
  assume ne: "a \<noteq> b"
  have "reaches gr {} root a" using assms(2) by (rule dominates_reachable)
  from reaches_first_visit [OF this, of "{a, b}"]
  have "reaches gr {a, b} root a \<or> reaches gr ({a, b} - {a}) root a \<or> reaches gr ({a, b} - {b}) root b"
    by auto
  moreover have "\<not> reaches gr {a, b} root a" using reaches_notin [of gr "{a, b}" root a] by auto
  moreover have "{a, b} - {a} = {b}" "{a, b} - {b} = {a}" using ne by auto
  ultimately have "reaches gr {b} root a \<or> reaches gr {a} root b" by simp
  then show False using assms by (simp add: dominates_def)
qed

lemma dominates_linear:
  assumes "dominates gr root c a" "dominates gr root d a"
  shows "dominates gr root c d \<or> dominates gr root d c"
proof (rule ccontr)
  assume n: "\<not> (dominates gr root c d \<or> dominates gr root d c)"
  have rc: "reaches gr {} root c" and rd: "reaches gr {} root d"
    using assms by (auto intro: dominator_reachable)
  with n have cd: "reaches gr {c} root d" and dc: "reaches gr {d} root c"
    by (simp_all add: dominates_def)
  have ra: "reaches gr {} root a" using assms(1) by (rule dominates_reachable)
  have "reaches gr {c} root a \<or> reaches gr {d} root a"
    using ra
  proof (induction rule: reaches_induct)
    case start
    show ?case
    proof (cases "root = c")
      case True
      then show ?thesis using cd by (simp add: reaches_def)
    next
      case False
      then show ?thesis by (simp add: reaches_refl)
    qed
  next
    case (step x y)
    from step.IH show ?case
    proof
      assume x: "reaches gr {c} root x"
      show ?thesis
      proof (cases "y = c")
        case True
        with dc have "reaches gr {d} root y" by simp
        then show ?thesis by simp
      next
        case False
        with x step.hyps(2) have "reaches gr {c} root y" by (auto intro: reaches_step)
        then show ?thesis by simp
      qed
    next
      assume x: "reaches gr {d} root x"
      show ?thesis
      proof (cases "y = d")
        case True
        with cd have "reaches gr {c} root y" by simp
        then show ?thesis by simp
      next
        case False
        with x step.hyps(2) have "reaches gr {d} root y" by (auto intro: reaches_step)
        then show ?thesis by simp
      qed
    qed
  qed
  then show False using assms by (simp add: dominates_def)
qed


subsection \<open>Immediate dominators\<close>

lemma wf_digraph_edge:
  "wf_digraph gr \<Longrightarrow> (u, v) \<in> set (edges gr) \<Longrightarrow> u \<in> set (node_names gr) \<and> v \<in> set (node_names gr)"
  by (auto simp: wf_digraph_def list_all_iff)

lemma reachable_is_node:
  assumes "wf_digraph gr" "has_node root gr" "reaches gr {} root n"
  shows "n \<in> set (node_names gr)"
  using assms(3)
proof (induction rule: reaches_induct)
  case start
  then show ?case using assms(2) by (simp add: has_node_def)
next
  case (step x y)
  then show ?case using wf_digraph_edge [OF assms(1)] by blast
qed

lemma dominator_is_node:
  assumes "wf_digraph gr" "has_node root gr" "dominates gr root d n"
  shows "d \<in> set (node_names gr)"
  using assms(1,2) dominator_reachable [OF assms(3)] by (rule reachable_is_node)


lemma finite_dominators: "finite (dominators gr root n)"
  by (simp add: dominators_def)

lemma strict_dominator_fewer:
  assumes "wf_digraph gr" "has_node root gr" "dominates gr root b a" "b \<noteq> a"
  shows "card (dominators gr root b) < card (dominators gr root a)"
proof (rule psubset_card_mono [OF finite_dominators])
  have ra: "reaches gr {} root a" using assms(3) by (rule dominates_reachable)
  have "a \<in> dominators gr root a"
    using reachable_is_node [OF assms(1,2) ra] dominates_refl [OF ra] by (simp add: dominators_def)
  moreover have "a \<notin> dominators gr root b"
    using dominates_antisym [OF _ assms(3)] assms(4) by (auto simp: dominators_def)
  moreover have "dominators gr root b \<subseteq> dominators gr root a"
    using dominates_trans [OF _ assms(3)] by (auto simp: dominators_def)
  ultimately show "dominators gr root b \<subset> dominators gr root a" by blast
qed

lemma immediate_dominator_exists:
  assumes "wf_digraph gr" "has_node root gr" "reaches gr {} root a" "a \<noteq> root"
  shows "\<exists>b \<in> set (node_names gr). immediately_dominates gr root b a"
proof -
  let ?S = "{d \<in> set (node_names gr). dominates gr root d a \<and> d \<noteq> a}"
  let ?f = "\<lambda>d. card (dominators gr root d)"
  have fin: "finite (?f ` ?S)" by simp
  have "root \<in> ?S"
    using assms(2,4) root_dominates [OF assms(3)] by (auto simp: has_node_def)
  then have ne: "?f ` ?S \<noteq> {}" by blast
  from Max_in [OF fin ne] obtain b where b: "b \<in> ?S" and m: "?f b = Max (?f ` ?S)" by auto
  have "\<not> (\<exists>c \<in> set (node_names gr). c \<noteq> a \<and> c \<noteq> b \<and> dominates gr root c a \<and> dominates gr root b c)"
  proof
    assume "\<exists>c \<in> set (node_names gr). c \<noteq> a \<and> c \<noteq> b \<and> dominates gr root c a \<and> dominates gr root b c"
    then obtain c where c: "c \<in> ?S" and cb: "c \<noteq> b" and bc: "dominates gr root b c" by blast
    have "?f c \<le> Max (?f ` ?S)" using c fin by (intro Max_ge) blast+
    moreover have "?f b < ?f c" using assms(1,2) bc cb by (intro strict_dominator_fewer) auto
    ultimately show False using m by simp
  qed
  with b show ?thesis by (auto simp: immediately_dominates_def)
qed

lemma immediate_dominator_unique:
  assumes "immediately_dominates gr root b a" "immediately_dominates gr root b' a"
    and "b \<in> set (node_names gr)" "b' \<in> set (node_names gr)"
  shows "b = b'"
proof (rule ccontr)
  assume ne: "b \<noteq> b'"
  from assms(1,2) have d: "dominates gr root b a" "dominates gr root b' a" and n: "b \<noteq> a" "b' \<noteq> a"
    by (simp_all add: immediately_dominates_def)
  from dominates_linear [OF d] show False
  proof
    assume "dominates gr root b b'"
    with assms(1,4) d n ne show False by (auto simp: immediately_dominates_def)
  next
    assume "dominates gr root b' b"
    with assms(2,3) d n ne show False by (auto simp: immediately_dominates_def)
  qed
qed

lemma root_no_immediate_dominator: "\<not> immediately_dominates gr root b root"
  using dominates_root [of gr root b] by (auto simp: immediately_dominates_def)

subsection \<open>The mapping\<close>

lemma set_immediate_dominators:
  assumes "immediate_dominators gr root = Inr doms"
  shows "set doms = {(a, b). a \<in> set (node_names gr) \<and> reaches gr {} root a \<and>
           b \<in> set (node_names gr) \<and> immediately_dominates gr root b a}"
proof -
  have "doms = concat (map (\<lambda>a. map (Pair a) (filter (\<lambda>b. immediately_dominates gr root b a) (node_names gr)))
                  (filter (reaches gr {} root) (node_names gr)))"
    using assms by (simp add: immediate_dominators_def split: if_splits)
  then show ?thesis by (simp only:) force
qed

lemma length_filter_unique:
  assumes "distinct xs" "\<And>x y. x \<in> set xs \<Longrightarrow> y \<in> set xs \<Longrightarrow> P x \<Longrightarrow> P y \<Longrightarrow> x = y"
  shows "length (filter P xs) \<le> 1"
proof -
  have d: "distinct (filter P xs)" using assms(1) by simp
  have c: "card (set (filter P xs)) \<le> 1"
  proof (cases "filter P xs")
    case Nil
    then show ?thesis by simp
  next
    case (Cons z zs)
    then have "z \<in> set (filter P xs)" by simp
    then have "set (filter P xs) = {z}" using assms(2) by auto
    then show ?thesis by simp
  qed
  have "length (filter P xs) = card (set (filter P xs))"
    using d by (rule distinct_card [symmetric])
  with c show ?thesis by (simp only:)
qed

lemma distinct_keys_concat:
  assumes "distinct as" "\<And>a. a \<in> set as \<Longrightarrow> length (F a) \<le> 1"
  shows "distinct (map fst (concat (map (\<lambda>a. map (Pair a) (F a)) as)))"
  using assms
proof (induction as)
  case Nil
  then show ?case by simp
next
  case (Cons a as)
  have l: "length (F a) \<le> 1" using Cons.prems(2) by simp
  have m: "map fst (map (Pair a) (F a)) = replicate (length (F a)) a"
    by (induction "F a") (auto simp: map_replicate_const comp_def)
  have r: "set (map fst (concat (map (\<lambda>a. map (Pair a) (F a)) as))) \<subseteq> set as" by auto
  have da: "distinct (replicate (length (F a)) a)"
    using l by (cases "length (F a)") auto
  have "distinct (map fst (concat (map (\<lambda>a. map (Pair a) (F a)) as)))"
    using Cons by simp
  moreover have "a \<notin> set as" using Cons.prems(1) by simp
  ultimately show ?case using r da m by (auto simp: comp_def)
qed

lemma distinct_immediate_dominators:
  assumes "wf_digraph gr" "immediate_dominators gr root = Inr doms"
  shows "distinct (map fst doms)"
proof -
  have d: "distinct (filter (reaches gr {} root) (node_names gr))"
    using assms(1) by (simp add: wf_digraph_def)
  have "doms = concat (map (\<lambda>a. map (Pair a) (filter (\<lambda>b. immediately_dominates gr root b a) (node_names gr)))
                  (filter (reaches gr {} root) (node_names gr)))"
    using assms(2) by (simp add: immediate_dominators_def split: if_splits)
  moreover have "distinct (map fst (concat (map (\<lambda>a. map (Pair a) (filter (\<lambda>b. immediately_dominates gr root b a) (node_names gr)))
                  (filter (reaches gr {} root) (node_names gr)))))"
  proof (rule distinct_keys_concat [OF d])
    fix a
    show "length (filter (\<lambda>b. immediately_dominates gr root b a) (node_names gr)) \<le> 1"
      using assms(1) by (intro length_filter_unique) (auto simp: wf_digraph_def intro: immediate_dominator_unique)
  qed
  ultimately show ?thesis by simp
qed

lemma domain_immediate_dominators:
  assumes "wf_digraph gr" "has_node root gr" "immediate_dominators gr root = Inr doms"
  shows "fst ` set doms = {n. reaches gr {} root n} - {root}"
proof
  show "fst ` set doms \<subseteq> {n. reaches gr {} root n} - {root}"
    unfolding set_immediate_dominators [OF assms(3)]
    using root_no_immediate_dominator [of gr root] by auto
next
  show "{n. reaches gr {} root n} - {root} \<subseteq> fst ` set doms"
  proof
    fix a assume "a \<in> {n. reaches gr {} root n} - {root}"
    then have r: "reaches gr {} root a" and n: "a \<noteq> root" by simp_all
    from immediate_dominator_exists [OF assms(1,2) r n] obtain b
      where "b \<in> set (node_names gr)" "immediately_dominates gr root b a" by blast
    with r reachable_is_node [OF assms(1,2) r] have "(a, b) \<in> set doms"
      unfolding set_immediate_dominators [OF assms(3)] by simp
    then show "a \<in> fst ` set doms" by force
  qed
qed

lemma immediate_dominators_decrease:
  assumes "wf_digraph gr" "has_node root gr" "immediate_dominators gr root = Inr doms" "(a, b) \<in> set doms"
  shows "card (dominators gr root b) < card (dominators gr root a)"
  using assms(4) unfolding set_immediate_dominators [OF assms(3)]
  by (auto simp: immediately_dominates_def intro: strict_dominator_fewer [OF assms(1,2)])

lemma acyclic_immediate_dominators:
  assumes "wf_digraph gr" "has_node root gr" "immediate_dominators gr root = Inr doms"
  shows "acyclic (set doms)"
proof -
  let ?f = "\<lambda>d. card (dominators gr root d)"
  have "set doms \<subseteq> (measure ?f)\<inverse>"
    using immediate_dominators_decrease [OF assms] by auto
  moreover have "acyclic ((measure ?f)\<inverse>)"
    using wf_acyclic [OF wf_measure] by simp
  ultimately show ?thesis by (rule acyclic_subset [rotated])
qed

lemma chain_immediate_dominators:
  assumes "wf_digraph gr" "has_node root gr" "immediate_dominators gr root = Inr doms"
    and "a \<in> fst ` set doms"
  shows "(a, root) \<in> (set doms)\<^sup>+"
  using assms(4)
proof (induction a rule: measure_induct_rule [of "\<lambda>d. card (dominators gr root d)"])
  case (less a)
  from less.prems obtain b where ab: "(a, b) \<in> set doms" by auto
  show ?case
  proof (cases "b = root")
    case True
    with ab show ?thesis by auto
  next
    case False
    from ab have "dominates gr root b a"
      unfolding set_immediate_dominators [OF assms(3)] by (simp add: immediately_dominates_def)
    then have "reaches gr {} root b" by (rule dominator_reachable)
    with False have "b \<in> fst ` set doms"
      unfolding domain_immediate_dominators [OF assms(1-3)] by simp
    moreover have "card (dominators gr root b) < card (dominators gr root a)"
      using assms(1-3) ab by (rule immediate_dominators_decrease)
    ultimately have "(b, root) \<in> (set doms)\<^sup>+" by (rule less.IH [rotated])
    with ab show ?thesis by (rule trancl_into_trancl2)
  qed
qed

lemma node_names_empty_digraph: "node_names empty_digraph = []"
  by (simp add: node_names_def empty_digraph_def)

lemma edges_empty_digraph: "edges empty_digraph = []"
  by (simp add: empty_digraph_def)

lemma edges_fold_add_edge:
  "set (edges (fold (\<lambda>(a, b) tr. add_edge a b tr) ps tr)) = set (edges tr) \<union> set ps"
  by (induction ps arbitrary: tr) (auto simp: set_edges_add_edge)

lemma node_names_fold_add_edge:
  "set (node_names (fold (\<lambda>(a, b) tr. add_edge a b tr) ps tr)) = set (node_names tr) \<union> fst ` set ps \<union> snd ` set ps"
  by (induction ps arbitrary: tr) (force simp: set_node_names_add_edge)+


subsection \<open>Dominance in terms of paths\<close>


lemma walk_snoc: "p \<noteq> [] \<Longrightarrow> walk es (p @ [y]) \<longleftrightarrow> walk es p \<and> (last p, y) \<in> set es"
  by (induction es p rule: walk.induct) auto

lemma reaches_iff_path: "reaches gr X r n \<longleftrightarrow> (\<exists>p. path gr r p n \<and> set p \<inter> X = {})"
proof
  assume "reaches gr X r n"
  then show "\<exists>p. path gr r p n \<and> set p \<inter> X = {}"
  proof (induction rule: reaches_induct)
    case start
    then have "path gr r [r] r \<and> set [r] \<inter> X = {}" by (simp add: path_def)
    then show ?case by blast
  next
    case (step x y)
    from step.IH obtain p where p: "path gr r p x" "set p \<inter> X = {}" by blast
    then have "path gr r (p @ [y]) y \<and> set (p @ [y]) \<inter> X = {}"
      using step.hyps(2,3) by (auto simp: path_def walk_snoc)
    then show ?case by blast
  qed
next
  assume "\<exists>p. path gr r p n \<and> set p \<inter> X = {}"
  then obtain p where "p \<noteq> []" "hd p = r" "last p = n" "walk (edges gr) p" "set p \<inter> X = {}"
    by (auto simp: path_def)
  then show "reaches gr X r n"
  proof (induction p arbitrary: n rule: rev_nonempty_induct)
    case (single x)
    then show ?case by (simp add: reaches_refl)
  next
    case (snoc y p)
    have "reaches gr X r (last p)"
      using snoc.prems snoc.hyps(1) by (intro snoc.IH) (auto simp: walk_snoc)
    moreover have "(last p, y) \<in> set (edges gr)" "y \<notin> X" "n = y"
      using snoc.prems snoc.hyps(1) by (auto simp: walk_snoc)
    ultimately show ?case by (auto intro: reaches_step)
  qed
qed

lemma dominates_iff_paths:
  "dominates gr root d n \<longleftrightarrow> (\<exists>p. path gr root p n) \<and> (\<forall>p. path gr root p n \<longrightarrow> d \<in> set p)"
  unfolding dominates_def reaches_iff_path by auto

subsection \<open>The graphs of the builder\<close>

lemma wf_digraph_to_digraph:
  assumes "to_digraph asm_out nm_out demangle = Inr gr"
  shows "wf_digraph gr"
proof -
  from assms obtain gr0 sizes where e: "add_edges demangle (parse_edges asm_out) empty_digraph = Inr gr0"
    and a: "add_sizes demangle sizes gr0 = Inr gr"
    by (rule to_digraph_parts)
  from add_sizes_keeps [OF a] have k: "node_names gr = node_names gr0" "edges gr = edges gr0" by simp_all
  from add_edges_graph [OF e]
  have "distinct (edges gr0)" "distinct (node_names gr0)"
    and "set (edges gr0) = raw_pairs demangle (parse_edges asm_out)"
    and "set (node_names gr0) = fst ` raw_pairs demangle (parse_edges asm_out) \<union> snd ` raw_pairs demangle (parse_edges asm_out)"
    by (simp_all add: empty_digraph_def node_names_def)
  then show ?thesis unfolding wf_digraph_def k list_all_iff by force
qed

text \<open>
  C2. For a graph and a root that is one of its nodes, the immediate-dominator mapping
  is a mapping (no node has two entries), its domain is exactly the nodes reachable from
  the root without the root, the dominator pointers lead from every node of the domain
  to the root, and they form no cycle; the tree that \<^verbatim>\<open>dominator_tree\<close> returns has
  exactly these pointers as its edges. For the graph with the edges \<open>A \<rightarrow> B\<close>,
  \<open>A \<rightarrow> C\<close>, \<open>B \<rightarrow> D\<close>, \<open>C \<rightarrow> D\<close> and the root \<open>A\<close> the mapping is
  \<open>{B: A, C: A, D: A}\<close>.
\<close>

theorem immediate_dominators_tree:
  assumes "wf_digraph gr" and "has_node root gr"
  shows "(\<exists>doms tr. immediate_dominators gr root = Inr doms \<and> distinct (map fst doms) \<and>
            fst ` set doms = {n. reaches gr {} root n} - {root} \<and>
            (\<forall>a \<in> fst ` set doms. (a, root) \<in> (set doms)\<^sup>+) \<and>
            acyclic (set doms) \<and>
            dominator_tree gr root = Inr tr \<and> set (edges tr) = set doms)
       \<and> immediate_dominators
           \<lparr>nodes = [(''A'', None), (''B'', None), (''C'', None), (''D'', None)],
            edges = [(''A'', ''B''), (''A'', ''C''), (''B'', ''D''), (''C'', ''D'')]\<rparr> ''A'' =
           Inr [(''B'', ''A''), (''C'', ''A''), (''D'', ''A'')]"
proof
  obtain doms where d: "immediate_dominators gr root = Inr doms"
    using assms(2) by (simp add: immediate_dominators_def)
  let ?tr = "fold (\<lambda>(a, b) tr. add_edge a b tr) doms empty_digraph"
  have t: "dominator_tree gr root = Inr ?tr" by (simp add: dominator_tree_def d)
  have e: "set (edges ?tr) = set doms" by (simp add: edges_fold_add_edge edges_empty_digraph)
  have "\<forall>a \<in> fst ` set doms. (a, root) \<in> (set doms)\<^sup>+"
    using chain_immediate_dominators [OF assms d] by blast
  with d t e distinct_immediate_dominators [OF assms(1) d] domain_immediate_dominators [OF assms d]
    acyclic_immediate_dominators [OF assms d]
  show "\<exists>doms tr. immediate_dominators gr root = Inr doms \<and> distinct (map fst doms) \<and>
            fst ` set doms = {n. reaches gr {} root n} - {root} \<and>
            (\<forall>a \<in> fst ` set doms. (a, root) \<in> (set doms)\<^sup>+) \<and>
            acyclic (set doms) \<and>
            dominator_tree gr root = Inr tr \<and> set (edges tr) = set doms"
    by blast
next
  show "immediate_dominators
           \<lparr>nodes = [(''A'', None), (''B'', None), (''C'', None), (''D'', None)],
            edges = [(''A'', ''B''), (''A'', ''C''), (''B'', ''D''), (''C'', ''D'')]\<rparr> ''A'' =
           Inr [(''B'', ''A''), (''C'', ''A''), (''D'', ''A'')]"
    by code_simp
qed

theorem immediate_dominators_tree_witness:
  "wf_digraph \<lparr>nodes = [(''X'', None), (''A'', None), (''B'', None), (''C'', None)],
               edges = [(''X'', ''A''), (''A'', ''B''), (''B'', ''C''), (''C'', ''B'')]\<rparr>
   \<and> has_node ''A'' \<lparr>nodes = [(''X'', None), (''A'', None), (''B'', None), (''C'', None)],
               edges = [(''X'', ''A''), (''A'', ''B''), (''B'', ''C''), (''C'', ''B'')]\<rparr>
   \<and> immediate_dominators \<lparr>nodes = [(''X'', None), (''A'', None), (''B'', None), (''C'', None)],
               edges = [(''X'', ''A''), (''A'', ''B''), (''B'', ''C''), (''C'', ''B'')]\<rparr> ''A'' =
        Inr [(''B'', ''A''), (''C'', ''B'')]
   \<and> acyclic (set [(''B'', ''A''), (''C'', ''B'')])
   \<and> (''C'', ''A'') \<in> (set [(''B'', ''A''), (''C'', ''B'')])\<^sup>+"
proof -
  let ?g = "\<lparr>nodes = [(''X'', None), (''A'', None), (''B'', None), (''C'', None)],
               edges = [(''X'', ''A''), (''A'', ''B''), (''B'', ''C''), (''C'', ''B'')]\<rparr>"
  have w: "wf_digraph ?g" by code_simp
  have h: "has_node ''A'' ?g" by code_simp
  have v: "immediate_dominators ?g ''A'' = Inr [(''B'', ''A''), (''C'', ''B'')]" by code_simp
  from immediate_dominators_tree [OF w h] v
  have "acyclic (set [(''B'', ''A''), (''C'', ''B'')])"
    and "\<forall>a \<in> fst ` set [(''B'', ''A''), (''C'', ''B'')]. (a, ''A'') \<in> (set [(''B'', ''A''), (''C'', ''B'')])\<^sup>+"
    by auto
  then have "acyclic (set [(''B'', ''A''), (''C'', ''B'')])"
    and "(''C'', ''A'') \<in> (set [(''B'', ''A''), (''C'', ''B'')])\<^sup>+"
    by simp_all
  with w h v show ?thesis by blast
qed

text \<open>
  C7. The dominance analysis ends in the "unknown root" error exactly if the root is no
  node of the graph. If the root is a node, the analysis returns a result, and a node
  that is not reachable from the root is neither in the domain of the mapping nor a node
  of the tree.
\<close>

theorem dominator_tree_unknown_root:
  "(dominator_tree gr root = Inl NetworkXError \<longleftrightarrow> \<not> has_node root gr)
   \<and> (has_node root gr \<longrightarrow>
        (\<exists>doms tr. immediate_dominators gr root = Inr doms \<and> dominator_tree gr root = Inr tr \<and>
           (\<forall>n. \<not> reaches gr {} root n \<longrightarrow> n \<notin> fst ` set doms \<and> n \<notin> set (node_names tr))))"
proof (cases "has_node root gr")
  case False
  then show ?thesis by (simp add: dominator_tree_def immediate_dominators_def)
next
  case True
  obtain doms where d: "immediate_dominators gr root = Inr doms"
    using True by (simp add: immediate_dominators_def)
  let ?tr = "fold (\<lambda>(a, b) tr. add_edge a b tr) doms empty_digraph"
  have t: "dominator_tree gr root = Inr ?tr" by (simp add: dominator_tree_def d)
  have n: "set (node_names ?tr) = fst ` set doms \<union> snd ` set doms"
    by (simp add: node_names_fold_add_edge node_names_empty_digraph)
  have r: "reaches gr {} root a \<and> reaches gr {} root b" if "(a, b) \<in> set doms" for a b
    using that unfolding set_immediate_dominators [OF d]
    by (auto simp: immediately_dominates_def intro: dominator_reachable)
  have "\<forall>n. \<not> reaches gr {} root n \<longrightarrow> n \<notin> fst ` set doms \<and> n \<notin> set (node_names ?tr)"
    unfolding n using r by force
  with True d t show ?thesis by auto
qed

theorem dominator_tree_unknown_root_witness:
  "dominator_tree \<lparr>nodes = [(''X'', None), (''A'', None), (''B'', None)],
                    edges = [(''X'', ''A''), (''A'', ''B'')]\<rparr> ''Z'' = Inl NetworkXError
   \<and> \<not> reaches \<lparr>nodes = [(''X'', None), (''A'', None), (''B'', None)],
                    edges = [(''X'', ''A''), (''A'', ''B'')]\<rparr> {} ''A'' ''X''
   \<and> dominator_tree \<lparr>nodes = [(''X'', None), (''A'', None), (''B'', None)],
                    edges = [(''X'', ''A''), (''A'', ''B'')]\<rparr> ''A'' =
       Inr \<lparr>nodes = [(''B'', None), (''A'', None)], edges = [(''B'', ''A'')]\<rparr>
   \<and> ''X'' \<notin> set (node_names \<lparr>nodes = [(''B'', None), (''A'', None)], edges = [(''B'', ''A'')]\<rparr>)"
proof -
  let ?g = "\<lparr>nodes = [(''X'', None), (''A'', None), (''B'', None)],
                    edges = [(''X'', ''A''), (''A'', ''B'')]\<rparr>"
  have z: "\<not> has_node ''Z'' ?g" by code_simp
  have a: "has_node ''A'' ?g" by code_simp
  have x: "\<not> reaches ?g {} ''A'' ''X''" by code_simp
  have v: "dominator_tree ?g ''A'' = Inr \<lparr>nodes = [(''B'', None), (''A'', None)], edges = [(''B'', ''A'')]\<rparr>"
    by code_simp
  from dominator_tree_unknown_root [of ?g "''Z''"] z
  have 1: "dominator_tree ?g ''Z'' = Inl NetworkXError" by blast
  from dominator_tree_unknown_root [of ?g "''A''"] a x v
  have 2: "''X'' \<notin> set (node_names \<lparr>nodes = [(''B'', None), (''A'', None)], edges = [(''B'', ''A'')]\<rparr>)"
    by auto
  from 1 x v 2 show ?thesis by blast
qed


end
